theory Spec2Isabelle
  imports Main "HOL-Library.Word" "HOL-Library.AList"
begin

section \<open>Data model of package clusterpeers\<close>

text \<open>
  The Go source is \<^verbatim>\<open>src/clusterpeers/clusterpeers.go\<close>. Role identifiers and the
  counters declared \<^verbatim>\<open>uint64\<close> are 64-bit words, so that \<^verbatim>\<open>--\<close> and \<^verbatim>\<open>++\<close> wrap
  as they do in Go. A connection handle \<^verbatim>\<open>*rpc.Client\<close> is an opaque number, and the
  nil pointer is \<open>None\<close>.
\<close>

type_synonym u64 = "64 word"
type_synonym client = nat

record Peer =
  roleId :: u64
  address :: string
  comm :: "client option"
  requirePromise :: bool

text \<open>
  A Go map is an association list with distinct keys. Reading a key that is absent
  gives the zero value of the element type; writing a key replaces the entry or adds one
  (\<open>AList.update\<close>). A \<^verbatim>\<open>range\<close> loop visits every key once in an order that Go
  leaves unspecified: each loop of the model takes the order of its visit as a list of
  keys, constrained by \<open>range_order\<close> only.
\<close>

definition zeroPeer :: Peer where
  "zeroPeer = \<lparr> roleId = 0, address = [], comm = None, requirePromise = False \<rparr>"

definition index_nodes :: "(u64 \<times> Peer) list \<Rightarrow> u64 \<Rightarrow> Peer" where
  "index_nodes m k = (case map_of m k of None \<Rightarrow> zeroPeer | Some p \<Rightarrow> p)"

definition range_order :: "('k \<times> 'v) list \<Rightarrow> 'k list \<Rightarrow> bool" where
  "range_order m ks \<longleftrightarrow> distinct ks \<and> set ks = set (map fst m)"

text \<open>
  The fields of \<^verbatim>\<open>Cluster\<close>. The channel \<^verbatim>\<open>registerBadConnection\<close> is the sequence of
  role identifiers sent on it, oldest first; its reader is the goroutine
  \<^verbatim>\<open>connectionManager\<close>, and a send that finds its 16 places taken waits for that
  reader, which the sequence does not show. The handle \<^verbatim>\<open>disk\<close> is only read by \<^verbatim>\<open>ConstructCluster\<close>,
  whose model takes the result of \<^verbatim>\<open>disk.RetrieveAddresses()\<close> as an argument. The
  mutex \<^verbatim>\<open>exclude\<close> is the subject of the section on the lock.
\<close>

record Cluster =
  thisRoleId :: u64
  nodes :: "(u64 \<times> Peer) list"
  registerBadConnection :: "u64 list"
  skipPromiseCount :: u64

text \<open>The number of entries of the peers map whose \<^verbatim>\<open>requirePromise\<close> is false.\<close>

definition skippedPeers :: "(u64 \<times> Peer) list \<Rightarrow> nat" where
  "skippedPeers m = length (filter (\<lambda>kp. \<not> requirePromise (snd kp)) m)"

definition wellformed :: "Cluster \<Rightarrow> bool" where
  "wellformed this \<longleftrightarrow> distinct (map fst (nodes this)) \<and> length (nodes this) < 2 ^ 63"

section \<open>ConstructCluster\<close>

text \<open>
  Errors are values, named after the call that produced them; the last one is the
  \<^verbatim>\<open>fmt.Errorf("Could not find address %s in peers table", thisAddress)\<close> of the source
  and carries \<^verbatim>\<open>thisAddress\<close>.
\<close>

datatype error =
    RetrieveAddressesError string
  | HostnameError string
  | LookupIPError string
  | SplitHostPortError string
  | AddressNotFound string

text \<open>A \<^verbatim>\<open>net.IP\<close>: whether \<^verbatim>\<open>To4()\<close> is non-nil, and the text \<^verbatim>\<open>String()\<close> returns.\<close>

record IP =
  To4 :: bool
  String :: string

text \<open>
  The first loop: \<^verbatim>\<open>peers[id] = newPeer\<close> for every entry of the table. The key that
  the source calls \<^verbatim>\<open>id\<close> is \<open>k\<close> here and below.
\<close>

fun build_peers :: "(u64 \<times> string) list \<Rightarrow> u64 list \<Rightarrow> (u64 \<times> Peer) list \<Rightarrow> (u64 \<times> Peer) list" where
  "build_peers addresses [] peers = peers"
| "build_peers addresses (k # ks) peers =
     (let address = (case map_of addresses k of None \<Rightarrow> [] | Some a \<Rightarrow> a);
          newPeer = \<lparr> roleId = k, address = address, comm = None, requirePromise = True \<rparr>
      in build_peers addresses ks (AList.update k newPeer peers))"

text \<open>The first address of \<^verbatim>\<open>ipInfo\<close> that is an IPv4 address, else the empty string.\<close>

fun first_ipv4 :: "IP list \<Rightarrow> string" where
  "first_ipv4 [] = []"
| "first_ipv4 (ip # ips) = (if To4 ip then String ip else first_ipv4 ips)"

text \<open>
  The loop that matches the address to a role identifier. \<^verbatim>\<open>net.SplitHostPort\<close> is the
  parameter \<open>splitHostPort\<close>, returning the error or the host and the port. The loop
  returns the first error, or the \<^verbatim>\<open>roleId\<close> it leaves: the one given when nothing
  matched.
\<close>

fun match_address ::
  "(string \<Rightarrow> string + string \<times> string) \<Rightarrow> (u64 \<times> string) list \<Rightarrow> string \<Rightarrow> u64 list \<Rightarrow> u64
     \<Rightarrow> error + u64" where
  "match_address splitHostPort addresses thisAddress [] rid = Inr rid"
| "match_address splitHostPort addresses thisAddress (k # ks) rid =
     (let fullAddress = (case map_of addresses k of None \<Rightarrow> [] | Some a \<Rightarrow> a) in
      case splitHostPort fullAddress of
        Inl err \<Rightarrow> Inl (SplitHostPortError err)
      | Inr (ip, port) \<Rightarrow>
          if thisAddress = ip then Inr k
          else match_address splitHostPort addresses thisAddress ks rid)"

text \<open>The block under \<^verbatim>\<open>if roleId == 0\<close>.\<close>

definition detect_roleId ::
  "(string + string) \<Rightarrow> (string \<Rightarrow> string + IP list) \<Rightarrow> (string \<Rightarrow> string + string \<times> string)
     \<Rightarrow> (u64 \<times> string) list \<Rightarrow> u64 list \<Rightarrow> error + u64" where
  "detect_roleId hostname lookupIP splitHostPort addresses order =
     (case hostname of
        Inl err \<Rightarrow> Inl (HostnameError err)
      | Inr name \<Rightarrow>
         (case lookupIP name of
            Inl err \<Rightarrow> Inl (LookupIPError err)
          | Inr ipInfo \<Rightarrow>
             (let thisAddress = first_ipv4 ipInfo in
              case match_address splitHostPort addresses thisAddress order 0 of
                Inl err \<Rightarrow> Inl err
              | Inr rid \<Rightarrow>
                  if rid = 0 then Inl (AddressNotFound thisAddress) else Inr rid)))"

text \<open>
  \<^verbatim>\<open>ConstructCluster(roleId, disk)\<close>. The arguments after \<open>rid\<close> are what the
  surroundings give: the result of \<^verbatim>\<open>disk.RetrieveAddresses()\<close>, of \<^verbatim>\<open>os.Hostname()\<close>,
  the functions \<^verbatim>\<open>net.LookupIP\<close> and \<^verbatim>\<open>net.SplitHostPort\<close>, and the orders of the two
  \<^verbatim>\<open>range\<close> loops over the table. The result is the error, or the cluster, its role
  identifier and its address. The goroutine \<^verbatim>\<open>connectionManager\<close> that the source starts
  before it returns touches none of these.
\<close>

definition ConstructCluster ::
  "u64 \<Rightarrow> (string + (u64 \<times> string) list) \<Rightarrow> (string + string) \<Rightarrow> (string \<Rightarrow> string + IP list)
     \<Rightarrow> (string \<Rightarrow> string + string \<times> string) \<Rightarrow> u64 list \<Rightarrow> u64 list
     \<Rightarrow> error + (Cluster \<times> u64 \<times> string)" where
  "ConstructCluster rid retrieved hostname lookupIP splitHostPort order1 order2 =
     (case retrieved of
        Inl err \<Rightarrow> Inl (RetrieveAddressesError err)
      | Inr addresses \<Rightarrow>
         (let peers = build_peers addresses order1 [] in
          case (if rid = 0 then detect_roleId hostname lookupIP splitHostPort addresses order2
                else Inr rid) of
            Inl err \<Rightarrow> Inl err
          | Inr rid' \<Rightarrow>
              (let newCluster = \<lparr> thisRoleId = rid', nodes = peers,
                                  registerBadConnection = [], skipPromiseCount = 0 \<rparr>
               in Inr (newCluster, thisRoleId newCluster,
                       address (index_nodes (nodes newCluster) (thisRoleId newCluster))))))"

section \<open>SetPromiseRequirement\<close>

definition SetPromiseRequirement :: "Cluster \<Rightarrow> u64 \<Rightarrow> bool \<Rightarrow> Cluster" where
  "SetPromiseRequirement this rid required =
     (let peer = index_nodes (nodes this) rid;
          count = (if requirePromise peer \<noteq> required
                   then (if required then skipPromiseCount this - 1
                         else skipPromiseCount this + 1)
                   else skipPromiseCount this)
      in this \<lparr> skipPromiseCount := count,
                nodes := AList.update rid (peer \<lparr> requirePromise := required \<rparr>) (nodes this) \<rparr>)"

section \<open>GetPeerCount and GetSkipPromiseCount\<close>

definition GetPeerCount :: "Cluster \<Rightarrow> u64" where
  "GetPeerCount this = of_nat (length (nodes this))"

definition GetSkipPromiseCount :: "Cluster \<Rightarrow> u64" where
  "GetSkipPromiseCount this = skipPromiseCount this"

section \<open>Remote calls, their completions and the timed select\<close>

text \<open>
  \<^verbatim>\<open>peer.comm.Go(method, args, reply, endpoint)\<close> starts a call and returns at once.
  The model records each call started: the key of the map entry it was started for,
  the handle it went through and the service method.
\<close>

datatype rpc_go = Go (target: u64) (handle: client) (serviceMethod: string)

text \<open>
  A completed \<^verbatim>\<open>*rpc.Call\<close> as the loops read it: its \<^verbatim>\<open>Error\<close> (nil is \<open>None\<close>) and
  its \<^verbatim>\<open>Reply\<close>.
\<close>

record 'r Call =
  Error :: "string option"
  Reply :: 'r

datatype 'r Response = Response (Data: 'r)

text \<open>\<^verbatim>\<open>time.Second\<close> in nanoseconds, the unit of \<^verbatim>\<open>time.Duration\<close>.\<close>

definition Second :: nat where
  "Second = 1000000000"

text \<open>
  The statement \<^verbatim>\<open>select { case reply := <- endpoint: ... case <- time.After(w): ... }\<close>.
  The channel \<^verbatim>\<open>endpoint\<close> is the list of completions that net/rpc delivers, each with
  the time the select waits for it, counted from the moment the select starts. A
  completion that is there within the window is received; otherwise (also when nothing
  is left to arrive) the timer fires after exactly \<open>w\<close>. When both are ready at the same
  instant Go takes either: the run that takes the timer is the run of a later arrival.
  The result is the time waited, and the completion and the rest of the channel when one
  was received.
\<close>

fun select_recv :: "nat \<Rightarrow> (nat \<times> 'a) list \<Rightarrow> nat \<times> ('a \<times> (nat \<times> 'a) list) option" where
  "select_recv w [] = (w, None)"
| "select_recv w ((d, x) # rest) = (if d \<le> w then (d, Some (x, rest)) else (w, None))"

section \<open>BroadcastHeartbeat\<close>

text \<open>The loop that sends the pulse to every peer whose \<^verbatim>\<open>comm\<close> is not nil.\<close>

fun heartbeat_send :: "(u64 \<times> Peer) list \<Rightarrow> u64 list \<Rightarrow> rpc_go list" where
  "heartbeat_send m [] = []"
| "heartbeat_send m (k # ks) =
     (let peer = index_nodes m k in
      (case comm peer of
         Some c \<Rightarrow> [Go k c ''ProposerRole.Heartbeat'']
       | None \<Rightarrow> []) @ heartbeat_send m ks)"

text \<open>
  The loop \<^verbatim>\<open>for replyCount < peerCount\<close>. The map \<^verbatim>\<open>received\<close> only ever holds
  \<^verbatim>\<open>true\<close>, so it is the list of its keys. The last component of the result is not a
  variable of the source: it tells whether the \<^verbatim>\<open>time.After\<close> case was taken.
\<close>

function heartbeat_collect ::
  "nat \<Rightarrow> (nat \<times> u64 Call) list \<Rightarrow> u64 list \<Rightarrow> bool \<Rightarrow> nat \<Rightarrow> bool
     \<Rightarrow> u64 list \<times> bool \<times> nat \<times> bool" where
  "heartbeat_collect peerCount endpoint received failures replyCount timedOut =
     (if replyCount < peerCount then
        (case snd (select_recv (Second div 2) endpoint) of
           Some (reply, rest) \<Rightarrow>
             if Error reply = None
             then heartbeat_collect peerCount rest (Reply reply # received) failures
                    (replyCount + 1) timedOut
             else heartbeat_collect peerCount rest received True (replyCount + 1) timedOut
         | None \<Rightarrow> heartbeat_collect peerCount endpoint received True peerCount True)
      else (received, failures, replyCount, timedOut))"
  by pat_completeness auto
termination
  by (relation "measure (\<lambda>(peerCount, endpoint, received, failures, replyCount, timedOut).
                  peerCount - replyCount)") auto

declare heartbeat_collect.simps [simp del]

text \<open>
  The body of \<^verbatim>\<open>if !received[roleId]\<close>: the peer loses its exemption and its key is
  sent on \<^verbatim>\<open>registerBadConnection\<close>.
\<close>

definition demote :: "Cluster \<Rightarrow> u64 \<Rightarrow> Cluster" where
  "demote this rid =
     (let peer = index_nodes (nodes this) rid;
          count = (if \<not> requirePromise peer then skipPromiseCount this - 1
                   else skipPromiseCount this)
      in this \<lparr> skipPromiseCount := count,
                nodes := AList.update rid (peer \<lparr> requirePromise := True \<rparr>) (nodes this),
                registerBadConnection := registerBadConnection this @ [rid] \<rparr>)"

text \<open>The loop under \<^verbatim>\<open>if failures\<close>, over the keys of \<^verbatim>\<open>this.nodes\<close>.\<close>

fun heartbeat_demote :: "u64 list \<Rightarrow> u64 list \<Rightarrow> Cluster \<Rightarrow> Cluster" where
  "heartbeat_demote received [] this = this"
| "heartbeat_demote received (rid # rids) this =
     (if rid \<notin> set received
      then heartbeat_demote received rids (demote this rid)
      else heartbeat_demote received rids this)"

text \<open>
  What a round leaves: the cluster, the calls started, and the outcome of the
  collection.
\<close>

record HeartbeatRound =
  cluster :: Cluster
  pulses :: "rpc_go list"
  replied :: "u64 list"
  failed :: bool
  expired :: bool

text \<open>
  \<^verbatim>\<open>BroadcastHeartbeat(roleId)\<close>. The argument \<open>rid\<close> is the payload of the pulse;
  \<open>order1\<close> and \<open>order2\<close> are the orders of the two \<^verbatim>\<open>range\<close> loops and \<open>endpoint\<close> is
  what arrives on the channel of that name.
\<close>

definition BroadcastHeartbeat ::
  "Cluster \<Rightarrow> u64 \<Rightarrow> u64 list \<Rightarrow> (nat \<times> u64 Call) list \<Rightarrow> u64 list \<Rightarrow> HeartbeatRound" where
  "BroadcastHeartbeat this rid order1 endpoint order2 =
     (let peerCount = length (nodes this);
          calls = heartbeat_send (nodes this) order1;
          (received, failures, replyCount, timedOut) =
             heartbeat_collect peerCount endpoint [] False 0 False
      in \<lparr> cluster = (if failures then heartbeat_demote received order2 this else this),
           pulses = calls, replied = received, failed = failures, expired = timedOut \<rparr>)"

section \<open>BroadcastPrepareRequest and BroadcastProposalRequest\<close>

fun prepare_send :: "(u64 \<times> Peer) list \<Rightarrow> u64 list \<Rightarrow> u64 \<Rightarrow> rpc_go list \<Rightarrow> u64 \<times> rpc_go list" where
  "prepare_send m [] peerCount calls = (peerCount, calls)"
| "prepare_send m (k # ks) peerCount calls =
     (let peer = index_nodes m k in
      if requirePromise peer \<and> comm peer \<noteq> None
      then prepare_send m ks (peerCount + 1)
             (calls @ [Go k (the (comm peer)) ''AcceptorRole.Prepare''])
      else prepare_send m ks peerCount calls)"

text \<open>
  \<^verbatim>\<open>BroadcastPrepareRequest(request)\<close> returns \<^verbatim>\<open>peerCount\<close>; the model adds the calls
  it started. The channel \<^verbatim>\<open>responses\<close> it also returns is filled by \<^verbatim>\<open>wrapReply\<close>,
  modelled below.
\<close>

definition BroadcastPrepareRequest :: "Cluster \<Rightarrow> u64 list \<Rightarrow> u64 \<times> rpc_go list" where
  "BroadcastPrepareRequest this order =
     (let nodeCount = (of_nat (length (nodes this)) :: u64) in
      if skipPromiseCount this < nodeCount div 2 + 1
      then prepare_send (nodes this) order 0 []
      else (0, []))"

text \<open>The filter is a \<^verbatim>\<open>map[uint64]bool\<close>; a key it lacks reads as \<^verbatim>\<open>false\<close>.\<close>

definition index_filter :: "(u64 \<times> bool) list \<Rightarrow> u64 \<Rightarrow> bool" where
  "index_filter f k = (case map_of f k of None \<Rightarrow> False | Some b \<Rightarrow> b)"

fun proposal_send ::
  "(u64 \<times> Peer) list \<Rightarrow> (u64 \<times> bool) list \<Rightarrow> u64 list \<Rightarrow> u64 \<Rightarrow> rpc_go list \<Rightarrow> u64 \<times> rpc_go list" where
  "proposal_send m f [] peerCount calls = (peerCount, calls)"
| "proposal_send m f (k # ks) peerCount calls =
     (let peer = index_nodes m k in
      if \<not> index_filter f k \<and> comm peer \<noteq> None
      then proposal_send m f ks (peerCount + 1)
             (calls @ [Go k (the (comm peer)) ''AcceptorRole.Accept''])
      else proposal_send m f ks peerCount calls)"

definition BroadcastProposalRequest ::
  "Cluster \<Rightarrow> (u64 \<times> bool) list \<Rightarrow> u64 list \<Rightarrow> u64 \<times> rpc_go list" where
  "BroadcastProposalRequest this f order = proposal_send (nodes this) f order 0 []"

section \<open>NotifyOfSuccess\<close>

text \<open>
  \<^verbatim>\<open>this.nodes[roleId].comm.Go(...)\<close> with no test of \<^verbatim>\<open>comm\<close>. The method \<^verbatim>\<open>Go\<close> of
  a nil \<^verbatim>\<open>*rpc.Client\<close> reads the fields of its receiver, which is the run-time panic
  "invalid memory address or nil pointer dereference"; nothing in the package recovers
  from it.
\<close>

datatype panic = NilPointerDereference

definition NotifyOfSuccess :: "Cluster \<Rightarrow> u64 \<Rightarrow> panic + rpc_go" where
  "NotifyOfSuccess this rid =
     (case comm (index_nodes (nodes this) rid) of
        None \<Rightarrow> Inl NilPointerDereference
      | Some c \<Rightarrow> Inr (Go rid c ''AcceptorRole.Success''))"

section \<open>wrapReply\<close>

text \<open>
  What a run of \<^verbatim>\<open>wrapReply\<close> leaves: the responses sent on \<^verbatim>\<open>forward\<close>, oldest
  first, and \<^verbatim>\<open>replyCount\<close>. The other two fields are not variables of the source:
  the time at which the run returned, counted from its start, and whether it returned
  through the \<^verbatim>\<open>time.After\<close> case. Only the waits of the \<^verbatim>\<open>select\<close> take time: the
  channel \<^verbatim>\<open>forward\<close> of the two broadcasts has room for every response, so a send on it
  does not wait.
\<close>

record 'r Collected =
  forwarded :: "'r Response list"
  counted :: u64
  finished :: nat
  abandoned :: bool

function wrapReply_loop ::
  "u64 \<Rightarrow> (nat \<times> 'r Call) list \<Rightarrow> 'r Response list \<Rightarrow> u64 \<Rightarrow> nat \<Rightarrow> 'r Collected" where
  "wrapReply_loop peerCount endpoint forward replyCount clock =
     (if replyCount < peerCount then
        (case select_recv (2 * Second) endpoint of
           (waited, Some (reply, rest)) \<Rightarrow>
             wrapReply_loop peerCount rest
               (if Error reply = None then forward @ [Response (Reply reply)] else forward)
               (replyCount + 1) (clock + waited)
         | (waited, None) \<Rightarrow>
             \<lparr> forwarded = forward, counted = replyCount, finished = clock + waited,
               abandoned = True \<rparr>)
      else \<lparr> forwarded = forward, counted = replyCount, finished = clock,
             abandoned = False \<rparr>)"
  by pat_completeness auto
termination
proof (relation "measure (\<lambda>(peerCount, endpoint, forward, replyCount, clock).
                   unat peerCount - unat replyCount)", goal_cases)
  case 1
  show ?case by simp
next
  case (2 peerCount endpoint forward replyCount clock x1 x2 waited reply rest)
  have lt: "unat replyCount < unat peerCount"
    using 2(1) by (simp add: word_less_nat_alt)
  have "replyCount + 1 \<noteq> 0"
  proof
    assume "replyCount + 1 = 0"
    then have "replyCount = - 1" by (simp add: eq_neg_iff_add_eq_0)
    then have "peerCount \<le> replyCount" by simp
    with 2(1) show False by simp
  qed
  then have "1 + replyCount \<noteq> 0" by (simp add: add.commute)
  then have "unat (1 + replyCount) = Suc (unat replyCount)" by (rule unatSuc)
  then have "unat (replyCount + 1) = Suc (unat replyCount)" by (simp add: add.commute)
  with lt show ?case by simp
qed

declare wrapReply_loop.simps [simp del]

definition wrapReply :: "u64 \<Rightarrow> (nat \<times> 'r Call) list \<Rightarrow> 'r Collected" where
  "wrapReply peerCount endpoint = wrapReply_loop peerCount endpoint [] 0 0"

section \<open>The lock\<close>

text \<open>
  What an operation does to the mutex \<^verbatim>\<open>exclude\<close> and to the state it guards, as the
  sequence of its steps: taking and releasing the lock (a deferred \<^verbatim>\<open>Unlock\<close> is the
  last step), reading or writing \<^verbatim>\<open>this.nodes\<close> (an index, \<^verbatim>\<open>len\<close> or one step of a
  \<^verbatim>\<open>range\<close>), reading or writing \<^verbatim>\<open>this.skipPromiseCount\<close>, starting a remote call
  with \<^verbatim>\<open>Go\<close> (which does not wait), a \<^verbatim>\<open>select\<close> with a \<^verbatim>\<open>time.After\<close> case, a send on
  a channel, and a \<^verbatim>\<open>go\<close> statement.
\<close>

datatype action =
    Lock | Unlock
  | ReadNodes | WriteNodes
  | ReadCount | WriteCount
  | StartCall | TimedWait | Send | Spawn

text \<open>Every access to the guarded state happens with the lock held.\<close>

fun guarded :: "bool \<Rightarrow> action list \<Rightarrow> bool" where
  "guarded held [] = True"
| "guarded held (Lock # as) = guarded True as"
| "guarded held (Unlock # as) = guarded False as"
| "guarded held (a # as) =
     ((a \<in> {ReadNodes, WriteNodes, ReadCount, WriteCount} \<longrightarrow> held) \<and> guarded held as)"

text \<open>No timed wait happens with the lock held.\<close>

fun unblocked :: "bool \<Rightarrow> action list \<Rightarrow> bool" where
  "unblocked held [] = True"
| "unblocked held (Lock # as) = unblocked True as"
| "unblocked held (Unlock # as) = unblocked False as"
| "unblocked held (a # as) = ((a = TimedWait \<longrightarrow> \<not> held) \<and> unblocked held as)"

text \<open>
  \<^verbatim>\<open>NotifyOfSuccess\<close>: the index of \<^verbatim>\<open>this.nodes\<close>, then the call and the \<^verbatim>\<open>go\<close>
  statement unless the nil handle panicked. The source has no \<^verbatim>\<open>Lock\<close> here.
\<close>

definition NotifyOfSuccess_steps :: "Cluster \<Rightarrow> u64 \<Rightarrow> action list" where
  "NotifyOfSuccess_steps this rid =
     ReadNodes # (case NotifyOfSuccess this rid of Inl p \<Rightarrow> [] | Inr c \<Rightarrow> [StartCall, Spawn])"

text \<open>\<^verbatim>\<open>SetPromiseRequirement\<close>, \<^verbatim>\<open>GetPeerCount\<close> and \<^verbatim>\<open>GetSkipPromiseCount\<close>.\<close>

definition SetPromiseRequirement_steps :: "Cluster \<Rightarrow> u64 \<Rightarrow> bool \<Rightarrow> action list" where
  "SetPromiseRequirement_steps this rid required =
     [Lock, ReadNodes]
     @ (if requirePromise (index_nodes (nodes this) rid) \<noteq> required
        then [ReadCount, WriteCount] else [])
     @ [WriteNodes, Unlock]"

definition GetPeerCount_steps :: "action list" where
  "GetPeerCount_steps = [Lock, ReadNodes, Unlock]"

definition GetSkipPromiseCount_steps :: "action list" where
  "GetSkipPromiseCount_steps = [Lock, ReadCount, Unlock]"

text \<open>
  \<^verbatim>\<open>BroadcastPrepareRequest\<close>: the lock, \<^verbatim>\<open>len(this.nodes)\<close>, the comparison of the
  counter, the loop (one step of the \<^verbatim>\<open>range\<close> and, when the test holds, one call
  started), the \<^verbatim>\<open>go this.wrapReply(...)\<close> and the deferred \<^verbatim>\<open>Unlock\<close>. The waiting is
  done by \<^verbatim>\<open>wrapReply\<close> in its own goroutine.
\<close>

fun prepare_send_steps :: "(u64 \<times> Peer) list \<Rightarrow> u64 list \<Rightarrow> action list" where
  "prepare_send_steps m [] = []"
| "prepare_send_steps m (k # ks) =
     ReadNodes # (if requirePromise (index_nodes m k) \<and> comm (index_nodes m k) \<noteq> None
                  then [StartCall] else []) @ prepare_send_steps m ks"

definition BroadcastPrepareRequest_steps :: "Cluster \<Rightarrow> u64 list \<Rightarrow> action list" where
  "BroadcastPrepareRequest_steps this order =
     [Lock, ReadNodes, ReadCount]
     @ (if skipPromiseCount this < (of_nat (length (nodes this)) :: u64) div 2 + 1
        then prepare_send_steps (nodes this) order else [])
     @ [Spawn, Unlock]"

text \<open>
  \<^verbatim>\<open>BroadcastHeartbeat\<close>: the lock and \<^verbatim>\<open>len(this.nodes)\<close>, the sending loop, one
  \<^verbatim>\<open>select\<close> for every turn of the collecting loop, the demotion loop when failures were
  observed, and the deferred \<^verbatim>\<open>Unlock\<close>.
\<close>

fun heartbeat_send_steps :: "(u64 \<times> Peer) list \<Rightarrow> u64 list \<Rightarrow> action list" where
  "heartbeat_send_steps m [] = []"
| "heartbeat_send_steps m (k # ks) =
     ReadNodes # (case comm (index_nodes m k) of Some c \<Rightarrow> [StartCall] | None \<Rightarrow> [])
     @ heartbeat_send_steps m ks"

function heartbeat_collect_steps :: "nat \<Rightarrow> (nat \<times> u64 Call) list \<Rightarrow> nat \<Rightarrow> action list" where
  "heartbeat_collect_steps peerCount endpoint replyCount =
     (if replyCount < peerCount then
        TimedWait #
        (case snd (select_recv (Second div 2) endpoint) of
           Some (reply, rest) \<Rightarrow> heartbeat_collect_steps peerCount rest (replyCount + 1)
         | None \<Rightarrow> heartbeat_collect_steps peerCount endpoint peerCount)
      else [])"
  by pat_completeness auto
termination
  by (relation "measure (\<lambda>(peerCount, endpoint, replyCount). peerCount - replyCount)") auto

declare heartbeat_collect_steps.simps [simp del]

fun heartbeat_demote_steps :: "u64 list \<Rightarrow> u64 list \<Rightarrow> Cluster \<Rightarrow> action list" where
  "heartbeat_demote_steps received [] this = []"
| "heartbeat_demote_steps received (rid # rids) this =
     ReadNodes #
     (if rid \<notin> set received
      then [ReadNodes]
           @ (if \<not> requirePromise (index_nodes (nodes this) rid)
              then [ReadCount, WriteCount] else [])
           @ [WriteNodes, Send]
           @ heartbeat_demote_steps received rids (demote this rid)
      else heartbeat_demote_steps received rids this)"

definition BroadcastHeartbeat_steps ::
  "Cluster \<Rightarrow> u64 \<Rightarrow> u64 list \<Rightarrow> (nat \<times> u64 Call) list \<Rightarrow> u64 list \<Rightarrow> action list" where
  "BroadcastHeartbeat_steps this rid order1 endpoint order2 =
     [Lock, ReadNodes]
     @ heartbeat_send_steps (nodes this) order1
     @ heartbeat_collect_steps (length (nodes this)) endpoint 0
     @ (let round = BroadcastHeartbeat this rid order1 endpoint order2 in
        if failed round then heartbeat_demote_steps (replied round) order2 this else [])
     @ [Unlock]"

section \<open>Notions used in the statements\<close>

text \<open>The test of the sending loop of \<^verbatim>\<open>BroadcastPrepareRequest\<close>.\<close>

definition wants_prepare :: "(u64 \<times> Peer) list \<Rightarrow> u64 \<Rightarrow> bool" where
  "wants_prepare m k \<longleftrightarrow> requirePromise (index_nodes m k) \<and> comm (index_nodes m k) \<noteq> None"

text \<open>The test of the sending loop of \<^verbatim>\<open>BroadcastProposalRequest\<close>.\<close>

definition wants_proposal :: "(u64 \<times> Peer) list \<Rightarrow> (u64 \<times> bool) list \<Rightarrow> u64 \<Rightarrow> bool" where
  "wants_proposal m f k \<longleftrightarrow> \<not> index_filter f k \<and> comm (index_nodes m k) \<noteq> None"

text \<open>The test of the sending loop of \<^verbatim>\<open>BroadcastHeartbeat\<close>.\<close>

definition connected :: "(u64 \<times> Peer) list \<Rightarrow> u64 \<Rightarrow> bool" where
  "connected m k \<longleftrightarrow> comm (index_nodes m k) \<noteq> None"

text \<open>
  The completions that a collecting loop with window \<open>w\<close> reads when it waits for \<open>n\<close>
  of them: those at the head of the channel that each arrive within the window, up to
  \<open>n\<close>.
\<close>

definition within :: "nat \<Rightarrow> nat \<times> 'a \<Rightarrow> bool" where
  "within w e \<longleftrightarrow> fst e \<le> w"

definition arrivals_read :: "nat \<Rightarrow> nat \<Rightarrow> (nat \<times> 'a) list \<Rightarrow> 'a list" where
  "arrivals_read w n endpoint = map snd (take n (takeWhile (within w) endpoint))"

text \<open>The times waited for the completions that such a loop reads.\<close>

definition waits_read :: "nat \<Rightarrow> nat \<Rightarrow> (nat \<times> 'a) list \<Rightarrow> nat list" where
  "waits_read w n endpoint = map fst (take n (takeWhile (within w) endpoint))"

text \<open>
  A node did not reply when its key is not in \<^verbatim>\<open>received\<close>; its exemption is revoked
  when it also had \<^verbatim>\<open>requirePromise = false\<close> before the round.
\<close>

definition silent :: "u64 list \<Rightarrow> u64 \<Rightarrow> bool" where
  "silent received k \<longleftrightarrow> k \<notin> set received"

definition revoked :: "Cluster \<Rightarrow> u64 list \<Rightarrow> u64 \<Rightarrow> bool" where
  "revoked this received k \<longleftrightarrow>
     silent received k \<and> \<not> requirePromise (index_nodes (nodes this) k)"

text \<open>
  The entry of key \<open>k\<close> matches the local address when \<^verbatim>\<open>net.SplitHostPort\<close> accepts
  its address and gives that host; the table parses when \<^verbatim>\<open>net.SplitHostPort\<close> accepts
  the address of every entry.
\<close>

definition matches ::
  "(string \<Rightarrow> string + string \<times> string) \<Rightarrow> (u64 \<times> string) list \<Rightarrow> string \<Rightarrow> u64 \<Rightarrow> bool" where
  "matches splitHostPort addresses thisAddress k =
     (case map_of addresses k of
        None \<Rightarrow> False
      | Some a \<Rightarrow> (case splitHostPort a of Inl err \<Rightarrow> False | Inr (ip, port) \<Rightarrow> thisAddress = ip))"

definition parses :: "(string \<Rightarrow> string + string \<times> string) \<Rightarrow> (u64 \<times> string) list \<Rightarrow> bool" where
  "parses splitHostPort addresses =
     list_all (\<lambda>ka. case splitHostPort (snd ka) of Inl err \<Rightarrow> False | Inr hp \<Rightarrow> True) addresses"

text \<open>The cluster that \<^verbatim>\<open>ConstructCluster\<close> returns for the role identifier \<open>rid\<close>.\<close>

definition fresh_cluster :: "(u64 \<times> string) list \<Rightarrow> u64 list \<Rightarrow> u64 \<Rightarrow> Cluster" where
  "fresh_cluster addresses order rid =
     \<lparr> thisRoleId = rid, nodes = build_peers addresses order [],
       registerBadConnection = [], skipPromiseCount = 0 \<rparr>"

text \<open>
  The counter agrees with the registry: \<^verbatim>\<open>skipPromiseCount\<close> is the number of entries
  whose \<^verbatim>\<open>requirePromise\<close> is false.
\<close>

definition consistent :: "Cluster \<Rightarrow> bool" where
  "consistent this \<longleftrightarrow> unat (skipPromiseCount this) = skippedPeers (nodes this)"

section \<open>Example clusters\<close>

text \<open>
  Three nodes: node 1 connected and requiring a promise, node 2 without a connection,
  node 3 connected and exempt.
\<close>

definition trio :: Cluster where
  "trio = \<lparr> thisRoleId = 1,
            nodes = [(1, \<lparr> roleId = 1, address = ''10.0.0.1:8000'', comm = Some 11,
                           requirePromise = True \<rparr>),
                     (2, \<lparr> roleId = 2, address = ''10.0.0.2:8000'', comm = None,
                           requirePromise = True \<rparr>),
                     (3, \<lparr> roleId = 3, address = ''10.0.0.3:8000'', comm = Some 13,
                           requirePromise = False \<rparr>)],
            registerBadConnection = [], skipPromiseCount = 1 \<rparr>"

text \<open>Five connected nodes, three of them exempt.\<close>

definition quintet :: Cluster where
  "quintet = \<lparr> thisRoleId = 1,
               nodes = [(1, \<lparr> roleId = 1, address = ''10.0.0.1:8000'', comm = Some 11,
                              requirePromise = True \<rparr>),
                        (2, \<lparr> roleId = 2, address = ''10.0.0.2:8000'', comm = Some 12,
                              requirePromise = True \<rparr>),
                        (3, \<lparr> roleId = 3, address = ''10.0.0.3:8000'', comm = Some 13,
                              requirePromise = False \<rparr>),
                        (4, \<lparr> roleId = 4, address = ''10.0.0.4:8000'', comm = Some 14,
                              requirePromise = False \<rparr>),
                        (5, \<lparr> roleId = 5, address = ''10.0.0.5:8000'', comm = Some 15,
                              requirePromise = False \<rparr>)],
               registerBadConnection = [], skipPromiseCount = 3 \<rparr>"

text \<open>
  What arrives on \<^verbatim>\<open>endpoint\<close> in a round of the three nodes: node 1 answers at
  once, the answer of node 3 comes after 600 ms.
\<close>

definition pulse_replies :: "(nat \<times> u64 Call) list" where
  "pulse_replies = [(100, \<lparr> Error = None, Reply = 1 \<rparr>), (600000000, \<lparr> Error = None, Reply = 3 \<rparr>)]"

text \<open>
  What arrives on \<^verbatim>\<open>endpoint\<close> after a broadcast to two peers: each answer comes
  1.5 s after the collector starts waiting for it.
\<close>

definition slow_replies :: "(nat \<times> nat Call) list" where
  "slow_replies = [(1500000000, \<lparr> Error = None, Reply = 1 \<rparr>),
                   (1500000000, \<lparr> Error = None, Reply = 2 \<rparr>)]"

text \<open>
  Five calls started: two answers, an error between them, and nothing more.
\<close>

definition partial_replies :: "(nat \<times> nat Call) list" where
  "partial_replies = [(5, \<lparr> Error = None, Reply = 1 \<rparr>),
                      (7, \<lparr> Error = Some ''connection is shut down'', Reply = 0 \<rparr>),
                      (9, \<lparr> Error = None, Reply = 3 \<rparr>)]"

text \<open>
  An address table of three nodes, and the surroundings of a machine whose first IPv4
  address is that of node 2. The function \<open>split_plain\<close> is what \<^verbatim>\<open>net.SplitHostPort\<close>
  does on a text without brackets: the port starts after the last colon, and a text
  with no colon, or with a colon in the host, is an error.
\<close>

definition table3 :: "(u64 \<times> string) list" where
  "table3 = [(1, ''10.0.0.1:8000''), (2, ''10.0.0.2:8000''), (3, ''10.0.0.3:8000'')]"

definition split_plain :: "string \<Rightarrow> string + string \<times> string" where
  "split_plain hostport =
     (if CHR '':'' \<notin> set hostport then Inl ''missing port in address''
      else (let host = rev (tl (dropWhile (\<lambda>c. c \<noteq> CHR '':'') (rev hostport)));
                port = rev (takeWhile (\<lambda>c. c \<noteq> CHR '':'') (rev hostport))
            in if CHR '':'' \<in> set host then Inl ''too many colons in address''
               else Inr (host, port)))"

definition lookup_node2 :: "string \<Rightarrow> string + IP list" where
  "lookup_node2 name = Inr [\<lparr> To4 = False, String = ''fe80::2'' \<rparr>,
                            \<lparr> To4 = True, String = ''10.0.0.2'' \<rparr>]"

section \<open>Auxiliary facts\<close>

subsection \<open>Counters\<close>
lemma unat_of_nat_u64: "n < 2 ^ 63 \<Longrightarrow> unat (of_nat n :: u64) = n"
  by (simp add: unat_of_nat)

lemma majority_u64:
  assumes "n < 2 ^ 63"
  shows "unat ((of_nat n :: u64) div 2 + 1) = n div 2 + 1"
proof -
  have a: "unat (of_nat n :: u64) = n" using assms by (rule unat_of_nat_u64)
  have "unat ((of_nat n :: u64) div 2) = n div 2"
    by (simp add: unat_div a)
  moreover have "n div 2 + 1 < 2 ^ 64" using assms by simp
  ultimately show ?thesis
    by (simp add: unat_word_ariths)
qed

lemma prepare_send_eq:
  "prepare_send m ks n calls =
     (n + of_nat (length (filter (wants_prepare m) ks)),
      calls @ map (\<lambda>k. Go k (the (comm (index_nodes m k))) ''AcceptorRole.Prepare'')
                (filter (wants_prepare m) ks))"
  by (induction ks arbitrary: n calls) (simp_all add: wants_prepare_def Let_def)

lemma range_order_length: "distinct (map fst m) \<Longrightarrow> range_order m ks \<Longrightarrow> length ks = length m"
  unfolding range_order_def
  by (metis distinct_card length_map)

subsection \<open>The demotion loop\<close>

lemma index_nodes_update:
  "index_nodes (AList.update k v m) k' = (if k' = k then v else index_nodes m k')"
  by (simp add: index_nodes_def update_conv')

lemma keys_update_present:
  "k \<in> set (map fst m) \<Longrightarrow> map fst (AList.update k v m) = map fst m"
  by (simp add: update_keys)

lemma demote_nodes:
  "nodes (demote this k) =
     AList.update k ((index_nodes (nodes this) k) \<lparr> requirePromise := True \<rparr>) (nodes this)"
  by (simp add: demote_def Let_def)

lemma demote_count:
  "skipPromiseCount (demote this k) =
     (if requirePromise (index_nodes (nodes this) k) then skipPromiseCount this
      else skipPromiseCount this - 1)"
  by (simp add: demote_def Let_def)

lemma demote_queue:
  "registerBadConnection (demote this k) = registerBadConnection this @ [k]"
  by (simp add: demote_def Let_def)

lemma demote_roleId: "thisRoleId (demote this k) = thisRoleId this"
  by (simp add: demote_def Let_def)

lemma demote_peer:
  "index_nodes (nodes (demote this k)) k' =
     (if k' = k then (index_nodes (nodes this) k) \<lparr> requirePromise := True \<rparr>
      else index_nodes (nodes this) k')"
  by (simp add: demote_nodes index_nodes_update)

lemma heartbeat_demote_keys:
  "set ks \<subseteq> set (map fst (nodes this)) \<Longrightarrow>
   map fst (nodes (heartbeat_demote received ks this)) = map fst (nodes this)"
proof (induction ks arbitrary: this)
  case Nil
  then show ?case by simp
next
  case (Cons k ks)
  have same: "map fst (nodes (demote this k)) = map fst (nodes this)"
    using Cons.prems by (simp add: demote_nodes keys_update_present)
  have sub: "set ks \<subseteq> set (map fst (nodes this))"
    using Cons.prems by simp
  have "map fst (nodes (heartbeat_demote received ks (demote this k))) = map fst (nodes this)"
    using Cons.IH [of "demote this k"] sub same by simp
  moreover have "map fst (nodes (heartbeat_demote received ks this)) = map fst (nodes this)"
    using Cons.IH [of this] sub by simp
  ultimately show ?case by simp
qed

lemma heartbeat_demote_roleId:
  "thisRoleId (heartbeat_demote received ks this) = thisRoleId this"
  by (induction ks arbitrary: this) (simp_all add: demote_roleId)

lemma heartbeat_demote_queue:
  "registerBadConnection (heartbeat_demote received ks this) =
     registerBadConnection this @ filter (silent received) ks"
  by (induction ks arbitrary: this) (simp_all add: demote_queue silent_def)

lemma heartbeat_demote_peer:
  "index_nodes (nodes (heartbeat_demote received ks this)) k =
     (if k \<in> set ks \<and> silent received k
      then (index_nodes (nodes this) k) \<lparr> requirePromise := True \<rparr>
      else index_nodes (nodes this) k)"
proof (induction ks arbitrary: this)
  case Nil
  then show ?case by simp
next
  case (Cons a ks)
  show ?case
    by (simp add: Cons.IH demote_peer silent_def)
qed

lemma heartbeat_demote_count:
  "distinct ks \<Longrightarrow>
   skipPromiseCount (heartbeat_demote received ks this) =
     skipPromiseCount this - of_nat (length (filter (revoked this received) ks))"
proof (induction ks arbitrary: this)
  case Nil
  then show ?case by simp
next
  case (Cons a ks)
  have same: "filter (revoked (demote this a) received) ks = filter (revoked this received) ks"
    using Cons.prems by (intro filter_cong refl) (auto simp: revoked_def demote_peer)
  show ?case
  proof (cases "a \<in> set received")
    case True
    then have "\<not> revoked this received a" by (simp add: revoked_def silent_def)
    with True Cons show ?thesis by simp
  next
    case False
    have "skipPromiseCount (heartbeat_demote received (a # ks) this) =
          skipPromiseCount (heartbeat_demote received ks (demote this a))"
      using False by simp
    also have "\<dots> = skipPromiseCount (demote this a) -
                 of_nat (length (filter (revoked (demote this a) received) ks))"
      using Cons.prems by (intro Cons.IH) simp
    finally have step: "skipPromiseCount (heartbeat_demote received (a # ks) this) =
        skipPromiseCount (demote this a) - of_nat (length (filter (revoked this received) ks))"
      by (simp add: same)
    show ?thesis
    proof (cases "requirePromise (index_nodes (nodes this) a)")
      case True
      then have "\<not> revoked this received a" by (simp add: revoked_def)
      with True step show ?thesis by (simp add: demote_count)
    next
      case exempt: False
      with False have "revoked this received a" by (simp add: revoked_def silent_def)
      with exempt step show ?thesis by (simp add: demote_count)
    qed
  qed
qed

subsection \<open>The collecting loop of the heartbeat\<close>

lemma arrivals_read_Nil [simp]: "arrivals_read w n [] = []"
  by (simp add: arrivals_read_def)

lemma arrivals_read_0 [simp]: "arrivals_read w 0 ep = []"
  by (simp add: arrivals_read_def)

lemma arrivals_read_Cons:
  "arrivals_read w (Suc n) ((d, x) # rest) = (if d \<le> w then x # arrivals_read w n rest else [])"
  by (simp add: arrivals_read_def within_def)

lemma heartbeat_collect_eq:
  "replyCount \<le> peerCount \<Longrightarrow>
   heartbeat_collect peerCount endpoint received failures replyCount timedOut =
     (let rd = arrivals_read (Second div 2) (peerCount - replyCount) endpoint in
      (rev (map Reply (filter (\<lambda>c. Error c = None) rd)) @ received,
       failures \<or> (\<exists>c \<in> set rd. Error c \<noteq> None) \<or> length rd < peerCount - replyCount,
       peerCount,
       timedOut \<or> length rd < peerCount - replyCount))"
proof (induction peerCount endpoint received failures replyCount timedOut
        rule: heartbeat_collect.induct)
  case (1 peerCount endpoint received failures replyCount timedOut)
  show ?case
  proof (cases "replyCount < peerCount")
    case False
    with 1(4) have "replyCount = peerCount" by simp
    then show ?thesis
      by (subst heartbeat_collect.simps) simp
  next
    case lt: True
    then obtain j where j: "peerCount - replyCount = Suc j"
      by (metis Suc_diff_Suc)
    then have j': "peerCount - (replyCount + 1) = j" by simp
    show ?thesis
    proof (cases endpoint)
      case Nil
      have "heartbeat_collect peerCount [] received failures replyCount timedOut =
            heartbeat_collect peerCount [] received True peerCount True"
        using lt by (subst heartbeat_collect.simps) simp
      also have "\<dots> = (received, True, peerCount, True)"
        by (subst heartbeat_collect.simps) simp
      finally show ?thesis using Nil j by simp
    next
      case (Cons e rest)
      obtain d x where e: "e = (d, x)" by (cases e)
      show ?thesis
      proof (cases "d \<le> Second div 2")
        case late: False
        have "heartbeat_collect peerCount endpoint received failures replyCount timedOut =
              heartbeat_collect peerCount endpoint received True peerCount True"
          using lt late Cons e by (subst heartbeat_collect.simps) simp
        also have "\<dots> = (received, True, peerCount, True)"
          by (subst heartbeat_collect.simps) simp
        finally show ?thesis using Cons e late j by (simp add: arrivals_read_Cons)
      next
        case intime: True
        then have sel: "snd (select_recv (Second div 2) endpoint) = Some (x, rest)"
          using Cons e by simp
        show ?thesis
        proof (cases "Error x = None")
          case True
          have "heartbeat_collect peerCount endpoint received failures replyCount timedOut =
                heartbeat_collect peerCount rest (Reply x # received) failures (replyCount + 1) timedOut"
            using lt sel True by (subst heartbeat_collect.simps) simp
          also have "\<dots> = (let rd = arrivals_read (Second div 2) (peerCount - (replyCount + 1)) rest in
              (rev (map Reply (filter (\<lambda>c. Error c = None) rd)) @ Reply x # received,
               failures \<or> (\<exists>c \<in> set rd. Error c \<noteq> None) \<or> length rd < peerCount - (replyCount + 1),
               peerCount,
               timedOut \<or> length rd < peerCount - (replyCount + 1)))"
            using lt by (intro 1(2)[OF lt sel refl True]) simp
          finally show ?thesis
            using Cons e intime True j j' by (simp add: arrivals_read_Cons Let_def)
        next
          case False
          have "heartbeat_collect peerCount endpoint received failures replyCount timedOut =
                heartbeat_collect peerCount rest received True (replyCount + 1) timedOut"
            using lt sel False by (subst heartbeat_collect.simps) auto
          also have "\<dots> = (let rd = arrivals_read (Second div 2) (peerCount - (replyCount + 1)) rest in
              (rev (map Reply (filter (\<lambda>c. Error c = None) rd)) @ received,
               True \<or> (\<exists>c \<in> set rd. Error c \<noteq> None) \<or> length rd < peerCount - (replyCount + 1),
               peerCount,
               timedOut \<or> length rd < peerCount - (replyCount + 1)))"
            using lt by (intro 1(3)[OF lt sel refl False]) simp
          finally show ?thesis
            using Cons e intime False j j' by (simp add: arrivals_read_Cons Let_def)
        qed
      qed
    qed
  qed
qed

subsection \<open>The sending loops and the example clusters\<close>

lemma proposal_send_eq:
  "proposal_send m f ks n calls =
     (n + of_nat (length (filter (wants_proposal m f) ks)),
      calls @ map (\<lambda>k. Go k (the (comm (index_nodes m k))) ''AcceptorRole.Accept'')
                (filter (wants_proposal m f) ks))"
  by (induction ks arbitrary: n calls) (simp_all add: wants_proposal_def Let_def)

lemma wellformed_trio: "wellformed trio"
  by (simp add: wellformed_def trio_def)

lemma wellformed_quintet: "wellformed quintet"
  by (simp add: wellformed_def quintet_def)

lemma range_order_trio: "range_order (nodes trio) [3, 1, 2]"
  by (auto simp: range_order_def trio_def)

section \<open>The broadcasts\<close>

text \<open>
  Claim C2. In a cluster of \<open>N\<close> nodes, when \<^verbatim>\<open>skipPromiseCount\<close> is at least
  \<open>N div 2 + 1\<close> at the time of the call, \<^verbatim>\<open>BroadcastPrepareRequest\<close> starts no
  Prepare call and returns the count 0, whatever the order of the loop.
\<close>

theorem BroadcastPrepareRequest_skips_on_majority:
  assumes "wellformed this"
    and "length (nodes this) div 2 + 1 \<le> unat (skipPromiseCount this)"
  shows "BroadcastPrepareRequest this order = (0, [])"
proof -
  have "unat ((of_nat (length (nodes this)) :: u64) div 2 + 1) = length (nodes this) div 2 + 1"
    using assms(1) by (intro majority_u64) (simp add: wellformed_def)
  then have "\<not> skipPromiseCount this < (of_nat (length (nodes this)) :: u64) div 2 + 1"
    using assms(2) by (simp add: word_less_nat_alt)
  then show ?thesis by (simp add: BroadcastPrepareRequest_def)
qed

theorem BroadcastPrepareRequest_skips_on_majority_witness:
  "wellformed quintet
   \<and> length (nodes quintet) div 2 + 1 \<le> unat (skipPromiseCount quintet)
   \<and> BroadcastPrepareRequest quintet [4, 1, 5, 2, 3] = (0, [])"
proof -
  have h: "length (nodes quintet) div 2 + 1 \<le> unat (skipPromiseCount quintet)"
    by (simp add: quintet_def)
  from BroadcastPrepareRequest_skips_on_majority [OF wellformed_quintet h] wellformed_quintet h
  show ?thesis by simp
qed

text \<open>
  Claim C7. When \<^verbatim>\<open>skipPromiseCount\<close> is below \<open>N div 2 + 1\<close>,
  \<^verbatim>\<open>BroadcastPrepareRequest\<close> starts a Prepare call for exactly the peers that have
  \<^verbatim>\<open>requirePromise = true\<close> and a connection handle, one call each and through that
  peer's handle, so a peer with no connection receives no call; the count returned is the
  number of calls started.
\<close>

theorem BroadcastPrepareRequest_targets:
  assumes wf: "wellformed this" and ro: "range_order (nodes this) order"
    and below: "unat (skipPromiseCount this) < length (nodes this) div 2 + 1"
  shows "target ` set (snd (BroadcastPrepareRequest this order)) =
           {k \<in> set (map fst (nodes this)).
              requirePromise (index_nodes (nodes this) k) \<and> comm (index_nodes (nodes this) k) \<noteq> None}
         \<and> distinct (map target (snd (BroadcastPrepareRequest this order)))
         \<and> (\<forall>c \<in> set (snd (BroadcastPrepareRequest this order)).
               comm (index_nodes (nodes this) (target c)) = Some (handle c)
               \<and> serviceMethod c = ''AcceptorRole.Prepare'')
         \<and> unat (fst (BroadcastPrepareRequest this order)) =
             length (snd (BroadcastPrepareRequest this order))"
proof -
  let ?m = "nodes this"
  let ?sel = "filter (wants_prepare ?m) order"
  have "unat ((of_nat (length ?m) :: u64) div 2 + 1) = length ?m div 2 + 1"
    using wf by (intro majority_u64) (simp add: wellformed_def)
  then have "skipPromiseCount this < (of_nat (length ?m) :: u64) div 2 + 1"
    using below by (simp add: word_less_nat_alt)
  then have eq: "BroadcastPrepareRequest this order =
      (of_nat (length ?sel),
       map (\<lambda>k. Go k (the (comm (index_nodes ?m k))) ''AcceptorRole.Prepare'') ?sel)"
    by (simp add: BroadcastPrepareRequest_def prepare_send_eq)
  have tg: "map target (snd (BroadcastPrepareRequest this order)) = ?sel"
    by (simp add: eq comp_def)
  have len: "length order = length ?m"
    using wf ro by (intro range_order_length) (simp_all add: wellformed_def)
  have "length ?sel \<le> length order" by simp
  then have small: "length ?sel < 2 ^ 63"
    using wf len by (simp add: wellformed_def)
  have 1: "target ` set (snd (BroadcastPrepareRequest this order)) =
           {k \<in> set (map fst ?m).
              requirePromise (index_nodes ?m k) \<and> comm (index_nodes ?m k) \<noteq> None}"
    using ro by (auto simp: eq image_comp comp_def wants_prepare_def range_order_def)
  have 2: "distinct (map target (snd (BroadcastPrepareRequest this order)))"
    using ro by (simp add: tg range_order_def)
  have 3: "\<forall>c \<in> set (snd (BroadcastPrepareRequest this order)).
               comm (index_nodes ?m (target c)) = Some (handle c)
               \<and> serviceMethod c = ''AcceptorRole.Prepare''"
    by (auto simp: eq wants_prepare_def)
  have 4: "unat (fst (BroadcastPrepareRequest this order)) =
             length (snd (BroadcastPrepareRequest this order))"
    using small by (simp add: eq unat_of_nat_u64)
  from 1 2 3 4 show ?thesis by blast
qed

theorem BroadcastPrepareRequest_targets_witness:
  "wellformed trio \<and> range_order (nodes trio) [3, 1, 2]
   \<and> unat (skipPromiseCount trio) < length (nodes trio) div 2 + 1
   \<and> BroadcastPrepareRequest trio [3, 1, 2] = (1, [Go 1 11 ''AcceptorRole.Prepare''])
   \<and> target ` set (snd (BroadcastPrepareRequest trio [3, 1, 2])) =
        {k \<in> set (map fst (nodes trio)).
           requirePromise (index_nodes (nodes trio) k) \<and> comm (index_nodes (nodes trio) k) \<noteq> None}
   \<and> unat (fst (BroadcastPrepareRequest trio [3, 1, 2])) =
        length (snd (BroadcastPrepareRequest trio [3, 1, 2]))"
proof -
  have h: "unat (skipPromiseCount trio) < length (nodes trio) div 2 + 1"
    by (simp add: trio_def)
  have e: "BroadcastPrepareRequest trio [3, 1, 2] = (1, [Go 1 11 ''AcceptorRole.Prepare''])"
    by (simp add: BroadcastPrepareRequest_def trio_def index_nodes_def)
  from BroadcastPrepareRequest_targets [OF wellformed_trio range_order_trio h]
    wellformed_trio range_order_trio h e
  show ?thesis by blast
qed

text \<open>
  Claim C8. \<^verbatim>\<open>BroadcastProposalRequest\<close> with the filter \<open>f\<close> starts an Accept call for
  exactly the peers that the filter does not exclude and that have a connection handle,
  one call each; a peer that the filter excludes (\<^verbatim>\<open>filter[roleId]\<close> is true) receives
  no call whatever its connection; the count returned is the number of calls started.
\<close>

theorem BroadcastProposalRequest_targets:
  assumes wf: "wellformed this" and ro: "range_order (nodes this) order"
  shows "target ` set (snd (BroadcastProposalRequest this f order)) =
           {k \<in> set (map fst (nodes this)).
              \<not> index_filter f k \<and> comm (index_nodes (nodes this) k) \<noteq> None}
         \<and> (\<forall>k. index_filter f k \<longrightarrow> k \<notin> target ` set (snd (BroadcastProposalRequest this f order)))
         \<and> distinct (map target (snd (BroadcastProposalRequest this f order)))
         \<and> (\<forall>c \<in> set (snd (BroadcastProposalRequest this f order)).
               comm (index_nodes (nodes this) (target c)) = Some (handle c)
               \<and> serviceMethod c = ''AcceptorRole.Accept'')
         \<and> unat (fst (BroadcastProposalRequest this f order)) =
             length (snd (BroadcastProposalRequest this f order))"
proof -
  let ?m = "nodes this"
  let ?sel = "filter (wants_proposal ?m f) order"
  have eq: "BroadcastProposalRequest this f order =
      (of_nat (length ?sel),
       map (\<lambda>k. Go k (the (comm (index_nodes ?m k))) ''AcceptorRole.Accept'') ?sel)"
    by (simp add: BroadcastProposalRequest_def proposal_send_eq)
  have tg: "map target (snd (BroadcastProposalRequest this f order)) = ?sel"
    by (simp add: eq comp_def)
  have len: "length order = length ?m"
    using wf ro by (intro range_order_length) (simp_all add: wellformed_def)
  have "length ?sel \<le> length order" by simp
  then have small: "length ?sel < 2 ^ 63"
    using wf len by (simp add: wellformed_def)
  have 1: "target ` set (snd (BroadcastProposalRequest this f order)) =
           {k \<in> set (map fst ?m). \<not> index_filter f k \<and> comm (index_nodes ?m k) \<noteq> None}"
    using ro by (auto simp: eq image_comp comp_def wants_proposal_def range_order_def)
  have 2: "distinct (map target (snd (BroadcastProposalRequest this f order)))"
    using ro by (simp add: tg range_order_def)
  have 3: "\<forall>c \<in> set (snd (BroadcastProposalRequest this f order)).
               comm (index_nodes ?m (target c)) = Some (handle c)
               \<and> serviceMethod c = ''AcceptorRole.Accept''"
    by (auto simp: eq wants_proposal_def)
  have 4: "unat (fst (BroadcastProposalRequest this f order)) =
             length (snd (BroadcastProposalRequest this f order))"
    using small by (simp add: eq unat_of_nat_u64)
  have 5: "\<forall>k. index_filter f k \<longrightarrow> k \<notin> target ` set (snd (BroadcastProposalRequest this f order))"
    using 1 by simp
  from 1 2 3 4 5 show ?thesis by blast
qed

theorem BroadcastProposalRequest_targets_witness:
  "wellformed trio \<and> range_order (nodes trio) [3, 1, 2]
   \<and> index_filter [(3, True), (1, False)] 3
   \<and> BroadcastProposalRequest trio [(3, True), (1, False)] [3, 1, 2] =
        (1, [Go 1 11 ''AcceptorRole.Accept''])
   \<and> 3 \<notin> target ` set (snd (BroadcastProposalRequest trio [(3, True), (1, False)] [3, 1, 2]))
   \<and> unat (fst (BroadcastProposalRequest trio [(3, True), (1, False)] [3, 1, 2])) =
        length (snd (BroadcastProposalRequest trio [(3, True), (1, False)] [3, 1, 2]))"
proof -
  have h: "index_filter [(3, True), (1, False)] (3 :: u64)"
    by (simp add: index_filter_def)
  have e: "BroadcastProposalRequest trio [(3, True), (1, False)] [3, 1, 2] =
        (1, [Go 1 11 ''AcceptorRole.Accept''])"
    by (simp add: BroadcastProposalRequest_def trio_def index_nodes_def index_filter_def)
  from BroadcastProposalRequest_targets [OF wellformed_trio range_order_trio, of "[(3, True), (1, False)]"]
    wellformed_trio range_order_trio h e
  show ?thesis by blast
qed

section \<open>The heartbeat\<close>

lemma heartbeat_send_eq:
  "heartbeat_send m ks =
     map (\<lambda>k. Go k (the (comm (index_nodes m k))) ''ProposerRole.Heartbeat'')
       (filter (connected m) ks)"
  by (induction ks) (auto simp: connected_def Let_def split: option.splits)

lemma BroadcastHeartbeat_eq:
  "BroadcastHeartbeat this rid order1 endpoint order2 =
     (let rd = arrivals_read (Second div 2) (length (nodes this)) endpoint;
          received = rev (map Reply (filter (\<lambda>c. Error c = None) rd));
          failures = ((\<exists>c \<in> set rd. Error c \<noteq> None) \<or> length rd < length (nodes this))
      in \<lparr> cluster = (if failures then heartbeat_demote received order2 this else this),
           pulses = heartbeat_send (nodes this) order1,
           replied = received, failed = failures,
           expired = (length rd < length (nodes this)) \<rparr>)"
  by (simp add: BroadcastHeartbeat_def heartbeat_collect_eq Let_def)

lemma replied_eq:
  "replied (BroadcastHeartbeat this rid order1 endpoint order2) =
     rev (map Reply (filter (\<lambda>c. Error c = None)
            (arrivals_read (Second div 2) (length (nodes this)) endpoint)))"
  by (simp add: BroadcastHeartbeat_eq Let_def)

lemma failed_eq:
  "failed (BroadcastHeartbeat this rid order1 endpoint order2) \<longleftrightarrow>
     (\<exists>c \<in> set (arrivals_read (Second div 2) (length (nodes this)) endpoint). Error c \<noteq> None)
     \<or> length (arrivals_read (Second div 2) (length (nodes this)) endpoint) < length (nodes this)"
  by (simp add: BroadcastHeartbeat_eq Let_def)

lemma expired_eq:
  "expired (BroadcastHeartbeat this rid order1 endpoint order2) \<longleftrightarrow>
     length (arrivals_read (Second div 2) (length (nodes this)) endpoint) < length (nodes this)"
  by (simp add: BroadcastHeartbeat_eq Let_def)

lemma pulses_eq:
  "pulses (BroadcastHeartbeat this rid order1 endpoint order2) = heartbeat_send (nodes this) order1"
  by (simp add: BroadcastHeartbeat_eq Let_def)

lemma cluster_eq:
  "cluster (BroadcastHeartbeat this rid order1 endpoint order2) =
     (if failed (BroadcastHeartbeat this rid order1 endpoint order2)
      then heartbeat_demote (replied (BroadcastHeartbeat this rid order1 endpoint order2)) order2 this
      else this)"
  by (simp add: BroadcastHeartbeat_eq Let_def)

lemma length_arrivals_read: "length (arrivals_read w n endpoint) \<le> min n (length endpoint)"
proof -
  have "length (takeWhile (within w) endpoint) \<le> length endpoint"
    by (rule length_takeWhile_le)
  then show ?thesis by (simp add: arrivals_read_def)
qed

lemma filter_card:
  "distinct ks \<Longrightarrow> length (filter P ks) = card {k \<in> set ks. P k}"
proof -
  assume "distinct ks"
  then have "distinct (filter P ks)" by simp
  then have "card (set (filter P ks)) = length (filter P ks)" by (rule distinct_card)
  then show ?thesis by simp
qed

lemma range_order_trio': "range_order (nodes trio) [2, 3, 1]"
  by (auto simp: range_order_def trio_def)

lemma trio_round:
  "BroadcastHeartbeat trio 1 [3, 1, 2] pulse_replies [2, 3, 1] =
     \<lparr> cluster = \<lparr> thisRoleId = 1,
            nodes = [(1, \<lparr> roleId = 1, address = ''10.0.0.1:8000'', comm = Some 11,
                           requirePromise = True \<rparr>),
                     (2, \<lparr> roleId = 2, address = ''10.0.0.2:8000'', comm = None,
                           requirePromise = True \<rparr>),
                     (3, \<lparr> roleId = 3, address = ''10.0.0.3:8000'', comm = Some 13,
                           requirePromise = True \<rparr>)],
            registerBadConnection = [2, 3], skipPromiseCount = 0 \<rparr>,
       pulses = [Go 3 13 ''ProposerRole.Heartbeat'', Go 1 11 ''ProposerRole.Heartbeat''],
       replied = [1], failed = True, expired = True \<rparr>"
  by (simp add: BroadcastHeartbeat_eq arrivals_read_def within_def Second_def pulse_replies_def
        trio_def demote_def index_nodes_def Let_def)

text \<open>
  Claim C3. A round observes failures exactly when a completion it read carries an
  error or the 500 ms timer fired before it had read as many completions as it waits
  for. In such a round every node whose key is not among the answers read is demoted:
  its \<^verbatim>\<open>requirePromise\<close> becomes true and nothing else of it changes, the nodes that
  answered are untouched, \<^verbatim>\<open>skipPromiseCount\<close> goes down by the number of silent nodes
  that had \<^verbatim>\<open>requirePromise = false\<close>, and the key of every silent node is sent on
  \<^verbatim>\<open>registerBadConnection\<close>, once, in the order of the loop.
\<close>

theorem BroadcastHeartbeat_demotes_silent:
  assumes wf: "wellformed this" and ro: "range_order (nodes this) order2"
  shows "(failed (BroadcastHeartbeat this rid order1 endpoint order2) \<longleftrightarrow>
            (\<exists>c \<in> set (arrivals_read (Second div 2) (length (nodes this)) endpoint). Error c \<noteq> None)
            \<or> expired (BroadcastHeartbeat this rid order1 endpoint order2))
       \<and> (failed (BroadcastHeartbeat this rid order1 endpoint order2) \<longrightarrow>
           (\<forall>k \<in> set (map fst (nodes this)).
              silent (replied (BroadcastHeartbeat this rid order1 endpoint order2)) k \<longrightarrow>
              index_nodes (nodes (cluster (BroadcastHeartbeat this rid order1 endpoint order2))) k =
                (index_nodes (nodes this) k) \<lparr> requirePromise := True \<rparr>)
         \<and> (\<forall>k. \<not> silent (replied (BroadcastHeartbeat this rid order1 endpoint order2)) k \<longrightarrow>
              index_nodes (nodes (cluster (BroadcastHeartbeat this rid order1 endpoint order2))) k =
                index_nodes (nodes this) k)
         \<and> skipPromiseCount (cluster (BroadcastHeartbeat this rid order1 endpoint order2)) =
             skipPromiseCount this -
               of_nat (card {k \<in> set (map fst (nodes this)).
                              revoked this (replied (BroadcastHeartbeat this rid order1 endpoint order2)) k})
         \<and> registerBadConnection (cluster (BroadcastHeartbeat this rid order1 endpoint order2)) =
             registerBadConnection this @
               filter (silent (replied (BroadcastHeartbeat this rid order1 endpoint order2))) order2
         \<and> map fst (nodes (cluster (BroadcastHeartbeat this rid order1 endpoint order2))) =
             map fst (nodes this))"
proof -
  let ?r = "BroadcastHeartbeat this rid order1 endpoint order2"
  have d: "distinct order2" and s: "set order2 = set (map fst (nodes this))"
    using ro by (simp_all add: range_order_def)
  have 0: "failed ?r \<longleftrightarrow>
            (\<exists>c \<in> set (arrivals_read (Second div 2) (length (nodes this)) endpoint). Error c \<noteq> None)
            \<or> expired ?r"
    by (simp only: failed_eq expired_eq)
  have rest: "(\<forall>k \<in> set (map fst (nodes this)). silent (replied ?r) k \<longrightarrow>
            index_nodes (nodes (cluster ?r)) k = (index_nodes (nodes this) k) \<lparr> requirePromise := True \<rparr>)
         \<and> (\<forall>k. \<not> silent (replied ?r) k \<longrightarrow>
            index_nodes (nodes (cluster ?r)) k = index_nodes (nodes this) k)
         \<and> skipPromiseCount (cluster ?r) = skipPromiseCount this -
             of_nat (card {k \<in> set (map fst (nodes this)). revoked this (replied ?r) k})
         \<and> registerBadConnection (cluster ?r) =
             registerBadConnection this @ filter (silent (replied ?r)) order2
         \<and> map fst (nodes (cluster ?r)) = map fst (nodes this)" if fl: "failed ?r"
  proof -
    have c: "cluster ?r = heartbeat_demote (replied ?r) order2 this"
      using fl by (simp add: cluster_eq)
    have 1: "\<forall>k \<in> set (map fst (nodes this)). silent (replied ?r) k \<longrightarrow>
              index_nodes (nodes (cluster ?r)) k = (index_nodes (nodes this) k) \<lparr> requirePromise := True \<rparr>"
      unfolding c using s by (simp add: heartbeat_demote_peer)
    have 2: "\<forall>k. \<not> silent (replied ?r) k \<longrightarrow>
              index_nodes (nodes (cluster ?r)) k = index_nodes (nodes this) k"
      unfolding c by (simp add: heartbeat_demote_peer)
    have 3: "skipPromiseCount (cluster ?r) = skipPromiseCount this -
               of_nat (card {k \<in> set (map fst (nodes this)). revoked this (replied ?r) k})"
      unfolding c using d s by (simp add: heartbeat_demote_count filter_card)
    have 4: "registerBadConnection (cluster ?r) =
               registerBadConnection this @ filter (silent (replied ?r)) order2"
      unfolding c by (simp add: heartbeat_demote_queue)
    have 5: "map fst (nodes (cluster ?r)) = map fst (nodes this)"
      unfolding c using s by (intro heartbeat_demote_keys) simp
    from 1 2 3 4 5 show ?thesis by blast
  qed
  from 0 rest show ?thesis by blast
qed

theorem BroadcastHeartbeat_demotes_silent_witness:
  "wellformed trio \<and> range_order (nodes trio) [2, 3, 1]
   \<and> failed (BroadcastHeartbeat trio 1 [3, 1, 2] pulse_replies [2, 3, 1])
   \<and> silent (replied (BroadcastHeartbeat trio 1 [3, 1, 2] pulse_replies [2, 3, 1])) 3
   \<and> \<not> requirePromise (index_nodes (nodes trio) 3)
   \<and> requirePromise (index_nodes
         (nodes (cluster (BroadcastHeartbeat trio 1 [3, 1, 2] pulse_replies [2, 3, 1]))) 3)
   \<and> skipPromiseCount trio = 1
   \<and> skipPromiseCount (cluster (BroadcastHeartbeat trio 1 [3, 1, 2] pulse_replies [2, 3, 1])) = 0
   \<and> registerBadConnection (cluster (BroadcastHeartbeat trio 1 [3, 1, 2] pulse_replies [2, 3, 1])) =
        [2, 3]"
proof -
  note inst = BroadcastHeartbeat_demotes_silent [OF wellformed_trio range_order_trio',
                of 1 "[3, 1, 2]" pulse_replies]
  have f: "failed (BroadcastHeartbeat trio 1 [3, 1, 2] pulse_replies [2, 3, 1])"
    by (simp add: trio_round)
  have k: "(3 :: u64) \<in> set (map fst (nodes trio))"
    by (simp add: trio_def)
  have s: "silent (replied (BroadcastHeartbeat trio 1 [3, 1, 2] pulse_replies [2, 3, 1])) 3"
    by (simp add: trio_round silent_def)
  have before: "\<not> requirePromise (index_nodes (nodes trio) 3)"
    by (simp add: trio_def index_nodes_def)
  from inst f k s
  have "index_nodes (nodes (cluster (BroadcastHeartbeat trio 1 [3, 1, 2] pulse_replies [2, 3, 1]))) 3 =
          (index_nodes (nodes trio) 3) \<lparr> requirePromise := True \<rparr>"
    by blast
  then have after: "requirePromise (index_nodes
         (nodes (cluster (BroadcastHeartbeat trio 1 [3, 1, 2] pulse_replies [2, 3, 1]))) 3)"
    by simp
  have c0: "skipPromiseCount trio = 1" by (simp add: trio_def)
  have c1: "skipPromiseCount (cluster (BroadcastHeartbeat trio 1 [3, 1, 2] pulse_replies [2, 3, 1])) = 0"
    by (simp add: trio_round)
  have q: "registerBadConnection (cluster (BroadcastHeartbeat trio 1 [3, 1, 2] pulse_replies [2, 3, 1])) =
        [2, 3]"
    by (simp add: trio_round)
  from wellformed_trio range_order_trio' f s before after c0 c1 q show ?thesis by blast
qed

text \<open>
  Claim C10. The pulse goes to exactly the entries with a connection handle, while the
  round waits for as many completions as the registry has entries (the local node
  included): it ends without the timer exactly when that many completions were read.
  Hence, every call started completing at most once, a registry with an entry that has no
  connection always ends the round through the 500 ms timer with failures observed, and
  every node that did not answer then requires a promise and is sent for repair.
\<close>

theorem BroadcastHeartbeat_waits_for_every_entry:
  assumes wf: "wellformed this" and ro1: "range_order (nodes this) order1"
    and ro2: "range_order (nodes this) order2"
  shows "target ` set (pulses (BroadcastHeartbeat this rid order1 endpoint order2)) =
           {k \<in> set (map fst (nodes this)). comm (index_nodes (nodes this) k) \<noteq> None}
       \<and> distinct (map target (pulses (BroadcastHeartbeat this rid order1 endpoint order2)))
       \<and> (expired (BroadcastHeartbeat this rid order1 endpoint order2) \<longleftrightarrow>
            length (arrivals_read (Second div 2) (length (nodes this)) endpoint) < length (nodes this))
       \<and> ((\<exists>k \<in> set (map fst (nodes this)). comm (index_nodes (nodes this) k) = None)
            \<and> length endpoint \<le> length (pulses (BroadcastHeartbeat this rid order1 endpoint order2)) \<longrightarrow>
            expired (BroadcastHeartbeat this rid order1 endpoint order2)
          \<and> failed (BroadcastHeartbeat this rid order1 endpoint order2)
          \<and> (\<forall>k \<in> set (map fst (nodes this)).
                silent (replied (BroadcastHeartbeat this rid order1 endpoint order2)) k \<longrightarrow>
                requirePromise (index_nodes
                  (nodes (cluster (BroadcastHeartbeat this rid order1 endpoint order2))) k)
                \<and> k \<in> set (drop (length (registerBadConnection this))
                     (registerBadConnection (cluster (BroadcastHeartbeat this rid order1 endpoint order2))))))"
proof -
  let ?r = "BroadcastHeartbeat this rid order1 endpoint order2"
  let ?m = "nodes this"
  have d1: "distinct order1" and s1: "set order1 = set (map fst ?m)"
    using ro1 by (simp_all add: range_order_def)
  have s2: "set order2 = set (map fst ?m)"
    using ro2 by (simp add: range_order_def)
  have len: "length order1 = length ?m"
    using wf ro1 by (intro range_order_length) (simp_all add: wellformed_def)
  have p: "pulses ?r = map (\<lambda>k. Go k (the (comm (index_nodes ?m k))) ''ProposerRole.Heartbeat'')
                         (filter (connected ?m) order1)"
    by (simp add: pulses_eq heartbeat_send_eq)
  have tg: "map target (pulses ?r) = filter (connected ?m) order1"
    by (simp add: p comp_def)
  have 1: "target ` set (pulses ?r) = {k \<in> set (map fst ?m). comm (index_nodes ?m k) \<noteq> None}"
    using s1 by (auto simp: p image_comp comp_def connected_def)
  have 2: "distinct (map target (pulses ?r))"
    using d1 by (simp add: tg)
  have 3: "expired ?r \<longleftrightarrow>
            length (arrivals_read (Second div 2) (length ?m) endpoint) < length ?m"
    by (rule expired_eq)
  have 4: "expired ?r \<and> failed ?r
          \<and> (\<forall>k \<in> set (map fst ?m). silent (replied ?r) k \<longrightarrow>
                requirePromise (index_nodes (nodes (cluster ?r)) k)
                \<and> k \<in> set (drop (length (registerBadConnection this))
                              (registerBadConnection (cluster ?r))))"
    if gap: "\<exists>k \<in> set (map fst ?m). comm (index_nodes ?m k) = None"
      and once: "length endpoint \<le> length (pulses ?r)"
  proof -
    from gap s1 obtain k where "k \<in> set order1" and "\<not> connected ?m k"
      by (auto simp: connected_def)
    then have "length (filter (connected ?m) order1) < length order1"
      by (intro length_filter_less)
    then have "length (pulses ?r) < length ?m"
      using len by (simp add: p)
    moreover have "length (arrivals_read (Second div 2) (length ?m) endpoint) \<le> length endpoint"
      using length_arrivals_read [of "Second div 2" "length ?m" endpoint] by simp
    ultimately have e: "expired ?r"
      using once by (simp add: expired_eq)
    then have f: "failed ?r"
      by (simp add: failed_eq expired_eq)
    then have c: "cluster ?r = heartbeat_demote (replied ?r) order2 this"
      by (simp add: cluster_eq)
    have "\<forall>k \<in> set (map fst ?m). silent (replied ?r) k \<longrightarrow>
                requirePromise (index_nodes (nodes (cluster ?r)) k)
                \<and> k \<in> set (drop (length (registerBadConnection this))
                              (registerBadConnection (cluster ?r)))"
      unfolding c using s2 by (simp add: heartbeat_demote_peer heartbeat_demote_queue)
    with e f show ?thesis by blast
  qed
  from 1 2 3 4 show ?thesis by blast
qed

theorem BroadcastHeartbeat_waits_for_every_entry_witness:
  "wellformed trio \<and> range_order (nodes trio) [3, 1, 2] \<and> range_order (nodes trio) [2, 3, 1]
   \<and> comm (index_nodes (nodes trio) 2) = None
   \<and> length [(100, \<lparr> Error = None, Reply = 1 \<rparr>), (200, \<lparr> Error = None, Reply = 3 :: u64 \<rparr>)]
        \<le> length (pulses (BroadcastHeartbeat trio 1 [3, 1, 2]
              [(100, \<lparr> Error = None, Reply = 1 \<rparr>), (200, \<lparr> Error = None, Reply = 3 \<rparr>)] [2, 3, 1]))
   \<and> expired (BroadcastHeartbeat trio 1 [3, 1, 2]
              [(100, \<lparr> Error = None, Reply = 1 \<rparr>), (200, \<lparr> Error = None, Reply = 3 \<rparr>)] [2, 3, 1])
   \<and> failed (BroadcastHeartbeat trio 1 [3, 1, 2]
              [(100, \<lparr> Error = None, Reply = 1 \<rparr>), (200, \<lparr> Error = None, Reply = 3 \<rparr>)] [2, 3, 1])
   \<and> registerBadConnection (cluster (BroadcastHeartbeat trio 1 [3, 1, 2]
              [(100, \<lparr> Error = None, Reply = 1 \<rparr>), (200, \<lparr> Error = None, Reply = 3 \<rparr>)] [2, 3, 1])) = [2]"
proof -
  let ?ep = "[(100, \<lparr> Error = None, Reply = 1 \<rparr>), (200, \<lparr> Error = None, Reply = 3 :: u64 \<rparr>)]"
  let ?r = "BroadcastHeartbeat trio 1 [3, 1, 2] ?ep [2, 3, 1]"
  note inst = BroadcastHeartbeat_waits_for_every_entry [OF wellformed_trio range_order_trio
                range_order_trio', of 1 ?ep]
  have k: "(2 :: u64) \<in> set (map fst (nodes trio))" by (simp add: trio_def)
  have g: "comm (index_nodes (nodes trio) 2) = None" by (simp add: trio_def index_nodes_def)
  have once: "length ?ep \<le> length (pulses ?r)"
    by (simp add: pulses_eq trio_def index_nodes_def)
  from inst k g once have ef: "expired ?r \<and> failed ?r" by blast
  have q: "registerBadConnection (cluster ?r) = [2]"
    by (simp add: BroadcastHeartbeat_eq arrivals_read_def within_def Second_def
          trio_def demote_def index_nodes_def Let_def)
  from wellformed_trio range_order_trio range_order_trio' g once ef q show ?thesis by blast
qed

section \<open>The collector\<close>

lemma waits_read_Nil [simp]: "waits_read w n [] = []"
  by (simp add: waits_read_def)

lemma waits_read_0 [simp]: "waits_read w 0 ep = []"
  by (simp add: waits_read_def)

lemma waits_read_Cons:
  "waits_read w (Suc n) ((d, x) # rest) = (if d \<le> w then d # waits_read w n rest else [])"
  by (simp add: waits_read_def within_def)

lemma unat_succ_below:
  fixes x y :: u64
  assumes "x < y"
  shows "unat (x + 1) = Suc (unat x)"
proof -
  have "x + 1 \<noteq> 0"
  proof
    assume "x + 1 = 0"
    then have "x = - 1" by (simp add: eq_neg_iff_add_eq_0)
    then have "y \<le> x" by simp
    with assms show False by simp
  qed
  then have "1 + x \<noteq> 0" by (simp add: add.commute)
  then have "unat (1 + x) = Suc (unat x)" by (rule unatSuc)
  then show ?thesis by (simp add: add.commute)
qed

lemma wrapReply_loop_eq:
  "replyCount \<le> peerCount \<Longrightarrow>
   wrapReply_loop peerCount endpoint forward replyCount clock =
     (let n = unat peerCount - unat replyCount;
          rd = arrivals_read (2 * Second) n endpoint
      in \<lparr> forwarded = forward @ map (\<lambda>c. Response (Reply c)) (filter (\<lambda>c. Error c = None) rd),
           counted = replyCount + of_nat (length rd),
           finished = clock + sum_list (waits_read (2 * Second) n endpoint)
                        + (if length rd < n then 2 * Second else 0),
           abandoned = (length rd < n) \<rparr>)"
proof (induction peerCount endpoint forward replyCount clock rule: wrapReply_loop.induct)
  case (1 peerCount endpoint forward replyCount clock)
  show ?case
  proof (cases "replyCount < peerCount")
    case False
    with 1(2) have "replyCount = peerCount" by simp
    then show ?thesis
      by (subst wrapReply_loop.simps) simp
  next
    case lt: True
    have suc: "unat (replyCount + 1) = Suc (unat replyCount)"
      using lt by (rule unat_succ_below)
    have ult: "unat replyCount < unat peerCount"
      using lt by (simp add: word_less_nat_alt)
    then obtain j where j: "unat peerCount - unat replyCount = Suc j"
      by (metis Suc_diff_Suc)
    then have j': "unat peerCount - unat (replyCount + 1) = j"
      by (simp add: suc)
    have le: "replyCount + 1 \<le> peerCount"
      using lt by (rule inc_le)
    show ?thesis
    proof (cases endpoint)
      case Nil
      have "wrapReply_loop peerCount [] forward replyCount clock =
            \<lparr> forwarded = forward, counted = replyCount, finished = clock + 2 * Second,
              abandoned = True \<rparr>"
        using lt by (subst wrapReply_loop.simps) simp
      then show ?thesis using Nil j by simp
    next
      case (Cons e rest)
      obtain d x where e: "e = (d, x)" by (cases e)
      show ?thesis
      proof (cases "d \<le> 2 * Second")
        case late: False
        have "wrapReply_loop peerCount endpoint forward replyCount clock =
              \<lparr> forwarded = forward, counted = replyCount, finished = clock + 2 * Second,
                abandoned = True \<rparr>"
          using lt late Cons e by (subst wrapReply_loop.simps) simp
        then show ?thesis using Cons e late j by (simp add: arrivals_read_Cons waits_read_Cons)
      next
        case intime: True
        then have sel: "(d, Some (x, rest)) = select_recv (2 * Second) endpoint"
          using Cons e by simp
        let ?fw = "if Error x = None then forward @ [Response (Reply x)] else forward"
        have "wrapReply_loop peerCount endpoint forward replyCount clock =
              wrapReply_loop peerCount rest ?fw (replyCount + 1) (clock + d)"
          using lt sel [symmetric] by (subst wrapReply_loop.simps) simp
        also have "\<dots> =
            (let n = unat peerCount - unat (replyCount + 1);
                 rd = arrivals_read (2 * Second) n rest
             in \<lparr> forwarded = ?fw @ map (\<lambda>c. Response (Reply c)) (filter (\<lambda>c. Error c = None) rd),
                  counted = replyCount + 1 + of_nat (length rd),
                  finished = clock + d + sum_list (waits_read (2 * Second) n rest)
                               + (if length rd < n then 2 * Second else 0),
                  abandoned = (length rd < n) \<rparr>)"
          by (rule 1(1) [OF lt sel refl refl le])
        finally show ?thesis
          using Cons e intime j j' by (simp add: arrivals_read_Cons waits_read_Cons Let_def)
      qed
    qed
  qed
qed


lemma sum_list_bounded:
  "(\<forall>x \<in> set xs. x \<le> (b::nat)) \<Longrightarrow> sum_list xs \<le> length xs * b"
  by (induction xs) auto

lemma waits_read_within: "\<forall>d \<in> set (waits_read w n endpoint). d \<le> w"
proof -
  have "set (take n (takeWhile (within w) endpoint)) \<subseteq> set (takeWhile (within w) endpoint)"
    by (rule set_take_subset)
  then have "\<forall>e \<in> set (take n (takeWhile (within w) endpoint)). within w e"
    by (auto dest: set_takeWhileD)
  then show ?thesis by (auto simp: waits_read_def within_def)
qed

lemma length_waits_read: "length (waits_read w n endpoint) = length (arrivals_read w n endpoint)"
  by (simp add: waits_read_def arrivals_read_def)

text \<open>
  Claim C4, as the code has it. A run of \<^verbatim>\<open>wrapReply\<close> that expects \<open>n\<close> completions
  reads at most \<open>n\<close> of them and forwards, in the order of arrival, exactly those it read
  that carry no error: the ones with an error are counted and not forwarded. It gives up
  when no completion arrives within 2 seconds of waiting for it, and returns with what it
  forwarded so far. The window starts again at every completion read, so the run lasts the
  sum of its waits, at most \<open>n\<close> times 2 seconds, and not 2 seconds from its start.
\<close>

theorem wrapReply_collects:
  "forwarded (wrapReply peerCount endpoint) =
     map (\<lambda>c. Response (Reply c))
       (filter (\<lambda>c. Error c = None) (arrivals_read (2 * Second) (unat peerCount) endpoint))
   \<and> length (forwarded (wrapReply peerCount endpoint)) \<le> unat peerCount
   \<and> unat (counted (wrapReply peerCount endpoint)) =
       length (arrivals_read (2 * Second) (unat peerCount) endpoint)
   \<and> (abandoned (wrapReply peerCount endpoint) \<longleftrightarrow>
       length (arrivals_read (2 * Second) (unat peerCount) endpoint) < unat peerCount)
   \<and> finished (wrapReply peerCount endpoint) =
       sum_list (waits_read (2 * Second) (unat peerCount) endpoint)
         + (if abandoned (wrapReply peerCount endpoint) then 2 * Second else 0)
   \<and> (\<forall>d \<in> set (waits_read (2 * Second) (unat peerCount) endpoint). d \<le> 2 * Second)
   \<and> finished (wrapReply peerCount endpoint) \<le> unat peerCount * (2 * Second)"
proof -
  let ?n = "unat peerCount"
  let ?rd = "arrivals_read (2 * Second) ?n endpoint"
  let ?ws = "waits_read (2 * Second) ?n endpoint"
  let ?r = "wrapReply peerCount endpoint"
  have eq: "?r = \<lparr> forwarded = map (\<lambda>c. Response (Reply c)) (filter (\<lambda>c. Error c = None) ?rd),
                   counted = of_nat (length ?rd),
                   finished = sum_list ?ws + (if length ?rd < ?n then 2 * Second else 0),
                   abandoned = (length ?rd < ?n) \<rparr>"
    by (simp add: wrapReply_def wrapReply_loop_eq Let_def)
  have len: "length ?rd \<le> ?n"
    using length_arrivals_read [of "2 * Second" ?n endpoint] by simp
  have 1: "forwarded ?r = map (\<lambda>c. Response (Reply c)) (filter (\<lambda>c. Error c = None) ?rd)"
    by (simp add: eq)
  have "length (filter (\<lambda>c. Error c = None) ?rd) \<le> length ?rd"
    by (rule length_filter_le)
  from this len have "length (filter (\<lambda>c. Error c = None) ?rd) \<le> ?n"
    by (rule le_trans)
  then have 2: "length (forwarded ?r) \<le> ?n"
    by (simp add: eq)
  have 3: "unat (counted ?r) = length ?rd"
    using len by (simp add: eq le_unat_uoi)
  have 4: "abandoned ?r \<longleftrightarrow> length ?rd < ?n"
    by (simp add: eq)
  have 5: "finished ?r = sum_list ?ws + (if abandoned ?r then 2 * Second else 0)"
    by (simp add: eq)
  have 6: "\<forall>d \<in> set ?ws. d \<le> 2 * Second"
    by (rule waits_read_within)
  then have "sum_list ?ws \<le> length ?ws * (2 * Second)"
    by (rule sum_list_bounded)
  then have s: "sum_list ?ws \<le> length ?rd * (2 * Second)"
    by (simp add: length_waits_read)
  have 7: "finished ?r \<le> ?n * (2 * Second)"
  proof (cases "length ?rd < ?n")
    case True
    then have "Suc (length ?rd) * (2 * Second) \<le> ?n * (2 * Second)"
      by (intro mult_le_mono1) simp
    with s True show ?thesis by (simp add: eq)
  next
    case False
    with len have "length ?rd = ?n" by simp
    with s False show ?thesis by (simp add: eq)
  qed
  from 1 2 3 4 5 6 7 show ?thesis by blast
qed

theorem wrapReply_collects_witness:
  "forwarded (wrapReply 5 partial_replies) = [Response 1, Response 3]
   \<and> unat (counted (wrapReply 5 partial_replies)) = 3
   \<and> abandoned (wrapReply 5 partial_replies)
   \<and> finished (wrapReply 5 partial_replies) = 2 * Second + 21
   \<and> 9 \<in> set (waits_read (2 * Second) (unat (5 :: u64)) partial_replies)
   \<and> (9 :: nat) \<le> 2 * Second"
proof -
  note inst = wrapReply_collects [of 5 partial_replies]
  have n: "unat (5 :: u64) = 5" by simp
  have rd: "arrivals_read (2 * Second) 5 partial_replies = map snd partial_replies"
    by (simp add: arrivals_read_def within_def Second_def partial_replies_def)
  have ws: "waits_read (2 * Second) 5 partial_replies = [5, 7, 9]"
    by (simp add: waits_read_def within_def Second_def partial_replies_def)
  have l: "length (map snd partial_replies) = 3"
    by (simp add: partial_replies_def)
  from inst have a: "abandoned (wrapReply 5 partial_replies)"
    unfolding n rd l by simp
  from inst have f: "forwarded (wrapReply 5 partial_replies) = [Response 1, Response 3]"
    unfolding n rd by (simp add: partial_replies_def)
  from inst have c: "unat (counted (wrapReply 5 partial_replies)) = 3"
    unfolding n rd l by simp
  from inst a have t: "finished (wrapReply 5 partial_replies) = 2 * Second + 21"
    unfolding n ws by simp
  have m: "9 \<in> set (waits_read (2 * Second) (unat (5 :: u64)) partial_replies)"
    unfolding n ws by simp
  with inst have w: "(9 :: nat) \<le> 2 * Second"
    by blast
  from f c a t m w show ?thesis by blast
qed

text \<open>
  Two answers that each take 1.5 s are both forwarded, and the run lasts 3 s: it is not
  abandoned 2 s after it started.
\<close>

theorem wrapReply_window_counterexample:
  "forwarded (wrapReply 2 slow_replies) = [Response 1, Response 2]
   \<and> \<not> abandoned (wrapReply 2 slow_replies)
   \<and> finished (wrapReply 2 slow_replies) = 3000000000
   \<and> \<not> finished (wrapReply 2 slow_replies) \<le> 2 * Second"
  by (simp add: wrapReply_def wrapReply_loop.simps slow_replies_def Second_def)

section \<open>Construction\<close>

lemma match_address_find:
  "\<forall>k \<in> set ks. \<exists>a h p. map_of addresses k = Some a \<and> splitHostPort a = Inr (h, p) \<Longrightarrow>
   match_address splitHostPort addresses thisAddress ks rid =
     (case find (matches splitHostPort addresses thisAddress) ks of
        None \<Rightarrow> Inr rid | Some k \<Rightarrow> Inr k)"
proof (induction ks)
  case Nil
  then show ?case by simp
next
  case (Cons k ks)
  then obtain a h p where a: "map_of addresses k = Some a" and s: "splitHostPort a = Inr (h, p)"
    by auto
  have m: "matches splitHostPort addresses thisAddress k \<longleftrightarrow> thisAddress = h"
    by (simp add: matches_def a s)
  from Cons have "match_address splitHostPort addresses thisAddress ks rid =
     (case find (matches splitHostPort addresses thisAddress) ks of
        None \<Rightarrow> Inr rid | Some k \<Rightarrow> Inr k)"
    by simp
  then show ?case by (simp add: a s m)
qed

lemma parses_entry:
  assumes p: "parses splitHostPort addresses" and d: "distinct (map fst addresses)"
    and k: "k \<in> set (map fst addresses)"
  shows "\<exists>a h p. map_of addresses k = Some a \<and> splitHostPort a = Inr (h, p)"
proof -
  from k obtain a where ka: "(k, a) \<in> set addresses" by auto
  with d have m: "map_of addresses k = Some a" by simp
  from p ka have "case splitHostPort a of Inl err \<Rightarrow> False | Inr hp \<Rightarrow> True"
    by (auto simp: parses_def list_all_iff)
  then obtain h p where "splitHostPort a = Inr (h, p)"
    by (cases "splitHostPort a") auto
  with m show ?thesis by blast
qed

lemma find_none: "\<forall>k \<in> set ks. \<not> P k \<Longrightarrow> find P ks = None"
  by (simp add: find_None_iff)

lemma find_unique:
  assumes "k \<in> set ks" and "P k" and "\<forall>k' \<in> set ks. P k' \<longrightarrow> k' = k"
  shows "find P ks = Some k"
  using assms
proof (induction ks)
  case Nil
  then show ?case by simp
next
  case (Cons x xs)
  show ?case
  proof (cases "P x")
    case True
    with Cons.prems(3) have "x = k" by simp
    with True show ?thesis by simp
  next
    case False
    with Cons.prems(1,2) have "k \<in> set xs" by auto
    moreover have "\<forall>k' \<in> set xs. P k' \<longrightarrow> k' = k"
      using Cons.prems(3) by simp
    ultimately have "find P xs = Some k"
      using Cons.prems(2) by (intro Cons.IH)
    with False show ?thesis by simp
  qed
qed

lemma map_of_build_peers:
  "map_of (build_peers addresses ks peers) k =
     (if k \<in> set ks
      then Some \<lparr> roleId = k,
                  address = (case map_of addresses k of None \<Rightarrow> [] | Some a \<Rightarrow> a),
                  comm = None, requirePromise = True \<rparr>
      else map_of peers k)"
  by (induction ks arbitrary: peers) (auto simp: Let_def update_conv')

lemma ConstructCluster_given:
  "rid \<noteq> 0 \<Longrightarrow>
   ConstructCluster rid (Inr addresses) hostname lookupIP splitHostPort order1 order2 =
     Inr (fresh_cluster addresses order1 rid, rid,
          address (index_nodes (build_peers addresses order1 []) rid))"
  by (simp add: ConstructCluster_def fresh_cluster_def Let_def)

lemma ConstructCluster_detect:
  "ConstructCluster 0 (Inr addresses) hostname lookupIP splitHostPort order1 order2 =
     (case detect_roleId hostname lookupIP splitHostPort addresses order2 of
        Inl err \<Rightarrow> Inl err
      | Inr rid \<Rightarrow> Inr (fresh_cluster addresses order1 rid, rid,
                        address (index_nodes (build_peers addresses order1 []) rid)))"
  by (simp add: ConstructCluster_def fresh_cluster_def Let_def split: sum.splits)

lemma address_build_peers:
  "k \<in> set ks \<Longrightarrow> map_of addresses k = Some a \<Longrightarrow>
   address (index_nodes (build_peers addresses ks []) k) = a"
  by (simp add: index_nodes_def map_of_build_peers)

lemma split_plain_table3:
  "split_plain ''10.0.0.1:8000'' = Inr (''10.0.0.1'', ''8000'')"
  "split_plain ''10.0.0.2:8000'' = Inr (''10.0.0.2'', ''8000'')"
  "split_plain ''10.0.0.3:8000'' = Inr (''10.0.0.3'', ''8000'')"
  by (simp_all add: split_plain_def)

lemma range_order_table3:
  "range_order table3 [3, 1, 2]" "range_order table3 [2, 3, 1]"
  by (auto simp: range_order_def table3_def)

text \<open>
  Claim C9. A role identifier given explicitly (not 0) is taken as it is, with no
  detection. With role identifier 0 and a valid address table (distinct role
  identifiers, every address a host and a port that \<^verbatim>\<open>net.SplitHostPort\<close> accepts, and
  0, which asks for detection, the identifier of no node), when the host name and its
  addresses are found: a table in which exactly one entry has the detected local address
  as its host resolves to the key of that entry and to its address; a table in which no
  entry has it fails with \<open>AddressNotFound\<close>. A failure of the host name or of the
  address lookup is returned as that error.
\<close>

theorem ConstructCluster_resolves:
  assumes d: "distinct (map fst addresses)"
    and ro1: "range_order addresses order1" and ro2: "range_order addresses order2"
  shows "(rid \<noteq> 0 \<longrightarrow>
            ConstructCluster rid (Inr addresses) hostname lookupIP splitHostPort order1 order2 =
              Inr (fresh_cluster addresses order1 rid, rid,
                   address (index_nodes (build_peers addresses order1 []) rid)))
       \<and> (\<forall>name ipInfo k a.
            hostname = Inr name \<and> lookupIP name = Inr ipInfo \<and> parses splitHostPort addresses
            \<and> map_of addresses k = Some a \<and> k \<noteq> 0
            \<and> (\<forall>k' \<in> set (map fst addresses).
                  matches splitHostPort addresses (first_ipv4 ipInfo) k' \<longleftrightarrow> k' = k) \<longrightarrow>
            ConstructCluster 0 (Inr addresses) hostname lookupIP splitHostPort order1 order2 =
              Inr (fresh_cluster addresses order1 k, k, a))
       \<and> (\<forall>name ipInfo.
            hostname = Inr name \<and> lookupIP name = Inr ipInfo \<and> parses splitHostPort addresses
            \<and> (\<forall>k' \<in> set (map fst addresses).
                  \<not> matches splitHostPort addresses (first_ipv4 ipInfo) k') \<longrightarrow>
            ConstructCluster 0 (Inr addresses) hostname lookupIP splitHostPort order1 order2 =
              Inl (AddressNotFound (first_ipv4 ipInfo)))
       \<and> (\<forall>err. hostname = Inl err \<longrightarrow>
            ConstructCluster 0 (Inr addresses) hostname lookupIP splitHostPort order1 order2 =
              Inl (HostnameError err))
       \<and> (\<forall>name err. hostname = Inr name \<and> lookupIP name = Inl err \<longrightarrow>
            ConstructCluster 0 (Inr addresses) hostname lookupIP splitHostPort order1 order2 =
              Inl (LookupIPError err))"
proof -
  let ?C = "ConstructCluster 0 (Inr addresses) hostname lookupIP splitHostPort order1 order2"
  have s1: "set order1 = set (map fst addresses)" and s2: "set order2 = set (map fst addresses)"
    using ro1 ro2 by (simp_all add: range_order_def)
  have A: "rid \<noteq> 0 \<longrightarrow>
            ConstructCluster rid (Inr addresses) hostname lookupIP splitHostPort order1 order2 =
              Inr (fresh_cluster addresses order1 rid, rid,
                   address (index_nodes (build_peers addresses order1 []) rid))"
    by (simp add: ConstructCluster_given)
  have loop: "match_address splitHostPort addresses t order2 0 =
        (case find (matches splitHostPort addresses t) order2 of None \<Rightarrow> Inr 0 | Some k \<Rightarrow> Inr k)"
    if p: "parses splitHostPort addresses" for t
  proof -
    have "\<forall>k \<in> set order2. \<exists>a h p. map_of addresses k = Some a \<and> splitHostPort a = Inr (h, p)"
      using parses_entry [OF p d] s2 by blast
    then show ?thesis by (rule match_address_find)
  qed
  have B: "?C = Inr (fresh_cluster addresses order1 k, k, a)"
    if h: "hostname = Inr name" and l: "lookupIP name = Inr ipInfo"
      and p: "parses splitHostPort addresses"
      and a: "map_of addresses k = Some a" and k0: "k \<noteq> 0"
      and u: "\<forall>k' \<in> set (map fst addresses).
                  matches splitHostPort addresses (first_ipv4 ipInfo) k' \<longleftrightarrow> k' = k"
    for name ipInfo k a
  proof -
    from a have "(k, a) \<in> set addresses" by (rule map_of_SomeD)
    then have kin: "k \<in> set (map fst addresses)" by force
    from bspec [OF u kin] have mk: "matches splitHostPort addresses (first_ipv4 ipInfo) k"
      by simp
    have k2: "k \<in> set order2" using kin s2 by simp
    have u2: "\<forall>k' \<in> set order2. matches splitHostPort addresses (first_ipv4 ipInfo) k' \<longrightarrow> k' = k"
      unfolding s2 using u by blast
    have "find (matches splitHostPort addresses (first_ipv4 ipInfo)) order2 = Some k"
      using k2 mk u2 by (rule find_unique)
    then have "match_address splitHostPort addresses (first_ipv4 ipInfo) order2 0 = Inr k"
      by (simp add: loop [OF p])
    then have "detect_roleId hostname lookupIP splitHostPort addresses order2 = Inr k"
      using h l k0 by (simp add: detect_roleId_def)
    moreover have "address (index_nodes (build_peers addresses order1 []) k) = a"
      using kin s1 a by (intro address_build_peers) simp_all
    ultimately show ?thesis by (simp add: ConstructCluster_detect)
  qed
  have C: "?C = Inl (AddressNotFound (first_ipv4 ipInfo))"
    if h: "hostname = Inr name" and l: "lookupIP name = Inr ipInfo"
      and p: "parses splitHostPort addresses"
      and n: "\<forall>k' \<in> set (map fst addresses).
                  \<not> matches splitHostPort addresses (first_ipv4 ipInfo) k'"
    for name ipInfo
  proof -
    have "\<forall>k' \<in> set order2. \<not> matches splitHostPort addresses (first_ipv4 ipInfo) k'"
      unfolding s2 by (rule n)
    then have "find (matches splitHostPort addresses (first_ipv4 ipInfo)) order2 = None"
      by (rule find_none)
    then have "match_address splitHostPort addresses (first_ipv4 ipInfo) order2 0 = Inr 0"
      by (simp add: loop [OF p])
    then have "detect_roleId hostname lookupIP splitHostPort addresses order2 =
                 Inl (AddressNotFound (first_ipv4 ipInfo))"
      using h l by (simp add: detect_roleId_def)
    then show ?thesis by (simp add: ConstructCluster_detect)
  qed
  have D: "?C = Inl (HostnameError err)" if "hostname = Inl err" for err
    using that by (simp add: ConstructCluster_detect detect_roleId_def)
  have E: "?C = Inl (LookupIPError err)"
    if "hostname = Inr name" and "lookupIP name = Inl err" for name err
    using that by (simp add: ConstructCluster_detect detect_roleId_def)
  have B': "\<forall>name ipInfo k a.
            hostname = Inr name \<and> lookupIP name = Inr ipInfo \<and> parses splitHostPort addresses
            \<and> map_of addresses k = Some a \<and> k \<noteq> 0
            \<and> (\<forall>k' \<in> set (map fst addresses).
                  matches splitHostPort addresses (first_ipv4 ipInfo) k' \<longleftrightarrow> k' = k) \<longrightarrow>
            ?C = Inr (fresh_cluster addresses order1 k, k, a)"
  proof (intro allI impI, elim conjE)
    fix name ipInfo k a
    assume "hostname = Inr name" "lookupIP name = Inr ipInfo" "parses splitHostPort addresses"
      "map_of addresses k = Some a" "k \<noteq> 0"
      "\<forall>k' \<in> set (map fst addresses).
          matches splitHostPort addresses (first_ipv4 ipInfo) k' \<longleftrightarrow> k' = k"
    then show "?C = Inr (fresh_cluster addresses order1 k, k, a)" by (rule B)
  qed
  have C': "\<forall>name ipInfo.
            hostname = Inr name \<and> lookupIP name = Inr ipInfo \<and> parses splitHostPort addresses
            \<and> (\<forall>k' \<in> set (map fst addresses).
                  \<not> matches splitHostPort addresses (first_ipv4 ipInfo) k') \<longrightarrow>
            ?C = Inl (AddressNotFound (first_ipv4 ipInfo))"
  proof (intro allI impI, elim conjE)
    fix name ipInfo
    assume "hostname = Inr name" "lookupIP name = Inr ipInfo" "parses splitHostPort addresses"
      "\<forall>k' \<in> set (map fst addresses).
          \<not> matches splitHostPort addresses (first_ipv4 ipInfo) k'"
    then show "?C = Inl (AddressNotFound (first_ipv4 ipInfo))" by (rule C)
  qed
  have D': "\<forall>err. hostname = Inl err \<longrightarrow> ?C = Inl (HostnameError err)"
    by (intro allI impI) (rule D)
  have E': "\<forall>name err. hostname = Inr name \<and> lookupIP name = Inl err \<longrightarrow>
            ?C = Inl (LookupIPError err)"
  proof (intro allI impI, elim conjE)
    fix name err
    assume "hostname = Inr name" "lookupIP name = Inl err"
    then show "?C = Inl (LookupIPError err)" by (rule E)
  qed
  from A B' C' D' E' show ?thesis by (intro conjI)
qed

theorem ConstructCluster_resolves_witness:
  "distinct (map fst table3) \<and> range_order table3 [3, 1, 2] \<and> range_order table3 [2, 3, 1]
   \<and> parses split_plain table3
   \<and> ConstructCluster 3 (Inr table3) (Inl ''no such file'') lookup_node2 split_plain [3, 1, 2] [2, 3, 1] =
        Inr (fresh_cluster table3 [3, 1, 2] 3, 3, ''10.0.0.3:8000'')
   \<and> ConstructCluster 0 (Inr table3) (Inr ''node2'') lookup_node2 split_plain [3, 1, 2] [2, 3, 1] =
        Inr (fresh_cluster table3 [3, 1, 2] 2, 2, ''10.0.0.2:8000'')
   \<and> ConstructCluster 0 (Inr table3) (Inr ''node9'')
          (\<lambda>name. Inr [\<lparr> To4 = True, String = ''10.0.0.9'' \<rparr>]) split_plain [3, 1, 2] [2, 3, 1] =
        Inl (AddressNotFound ''10.0.0.9'')
   \<and> ConstructCluster 0 (Inr table3) (Inl ''no such file'') lookup_node2 split_plain [3, 1, 2] [2, 3, 1] =
        Inl (HostnameError ''no such file'')
   \<and> ConstructCluster 0 (Inr table3) (Inr ''node2'') (\<lambda>name. Inl ''no such host'') split_plain
          [3, 1, 2] [2, 3, 1] =
        Inl (LookupIPError ''no such host'')"
proof -
  have d: "distinct (map fst table3)" by (simp add: table3_def)
  note ro = range_order_table3
  have p: "parses split_plain table3"
    by (simp add: parses_def table3_def split_plain_table3)
  have a3: "address (index_nodes (build_peers table3 [3, 1, 2] []) 3) = ''10.0.0.3:8000''"
    by (simp add: table3_def index_nodes_def Let_def)
  have n3: "(3 :: u64) \<noteq> 0" and n2: "(2 :: u64) \<noteq> 0" by simp_all
  have "ConstructCluster 3 (Inr table3) (Inl ''no such file'') lookup_node2 split_plain
          [3, 1, 2] [2, 3, 1] =
        Inr (fresh_cluster table3 [3, 1, 2] 3, 3,
             address (index_nodes (build_peers table3 [3, 1, 2] []) 3))"
    by (rule ConstructCluster_resolves [OF d ro, THEN conjunct1, rule_format]) (rule n3)
  then have given: "ConstructCluster 3 (Inr table3) (Inl ''no such file'') lookup_node2 split_plain
                 [3, 1, 2] [2, 3, 1] =
               Inr (fresh_cluster table3 [3, 1, 2] 3, 3, ''10.0.0.3:8000'')"
    by (simp only: a3)
  have l2: "lookup_node2 ''node2'' =
              Inr [\<lparr> To4 = False, String = ''fe80::2'' \<rparr>, \<lparr> To4 = True, String = ''10.0.0.2'' \<rparr>]"
    by (simp add: lookup_node2_def)
  have m2: "map_of table3 2 = Some ''10.0.0.2:8000''" by (simp add: table3_def)
  have u2: "\<forall>k' \<in> set (map fst table3).
              matches split_plain table3
                (first_ipv4 [\<lparr> To4 = False, String = ''fe80::2'' \<rparr>,
                             \<lparr> To4 = True, String = ''10.0.0.2'' \<rparr>]) k' \<longleftrightarrow> k' = 2"
    by (simp add: table3_def matches_def split_plain_table3)
  have found: "ConstructCluster 0 (Inr table3) (Inr ''node2'') lookup_node2 split_plain
                 [3, 1, 2] [2, 3, 1] =
               Inr (fresh_cluster table3 [3, 1, 2] 2, 2, ''10.0.0.2:8000'')"
    by (rule ConstructCluster_resolves [OF d ro, THEN conjunct2, THEN conjunct1, rule_format])
       (rule conjI refl l2 p m2 n2 u2)+
  have u9: "\<forall>k' \<in> set (map fst table3).
              \<not> matches split_plain table3 (first_ipv4 [\<lparr> To4 = True, String = ''10.0.0.9'' \<rparr>]) k'"
    by (simp add: table3_def matches_def split_plain_table3)
  have "ConstructCluster 0 (Inr table3) (Inr ''node9'')
          (\<lambda>name. Inr [\<lparr> To4 = True, String = ''10.0.0.9'' \<rparr>]) split_plain [3, 1, 2] [2, 3, 1] =
        Inl (AddressNotFound (first_ipv4 [\<lparr> To4 = True, String = ''10.0.0.9'' \<rparr>]))"
    by (rule ConstructCluster_resolves [OF d ro, THEN conjunct2, THEN conjunct2, THEN conjunct1,
               rule_format])
       (rule conjI refl p u9)+
  then have missing: "ConstructCluster 0 (Inr table3) (Inr ''node9'')
          (\<lambda>name. Inr [\<lparr> To4 = True, String = ''10.0.0.9'' \<rparr>]) split_plain [3, 1, 2] [2, 3, 1] =
        Inl (AddressNotFound ''10.0.0.9'')"
    by simp
  have nohost: "ConstructCluster 0 (Inr table3) (Inl ''no such file'') lookup_node2 split_plain
                  [3, 1, 2] [2, 3, 1] =
                Inl (HostnameError ''no such file'')"
    by (rule ConstructCluster_resolves [OF d ro, THEN conjunct2, THEN conjunct2, THEN conjunct2,
               THEN conjunct1, rule_format])
       (rule refl)
  have nolookup: "ConstructCluster 0 (Inr table3) (Inr ''node2'') (\<lambda>name. Inl ''no such host'')
                    split_plain [3, 1, 2] [2, 3, 1] =
                  Inl (LookupIPError ''no such host'')"
    by (rule ConstructCluster_resolves [OF d ro, THEN conjunct2, THEN conjunct2, THEN conjunct2,
               THEN conjunct2, rule_format])
       (rule conjI refl)+
  from d ro p given found missing nohost nolookup show ?thesis by (intro conjI)
qed

text \<open>
  Outside the valid tables: an entry under the key 0 is never resolved to, and an
  address without a port ends the detection with the error of \<^verbatim>\<open>net.SplitHostPort\<close>
  when the loop reaches it.
\<close>

lemma ConstructCluster_outside_valid_tables:
  "matches split_plain [(0, ''10.0.0.2:8000'')] ''10.0.0.2'' 0
   \<and> ConstructCluster 0 (Inr [(0, ''10.0.0.2:8000'')]) (Inr ''node2'') lookup_node2 split_plain [0] [0] =
        Inl (AddressNotFound ''10.0.0.2'')
   \<and> \<not> matches split_plain [(1, ''10.0.0.1'')] ''10.0.0.2'' 1
   \<and> ConstructCluster 0 (Inr [(1, ''10.0.0.1'')]) (Inr ''node2'') lookup_node2 split_plain [1] [1] =
        Inl (SplitHostPortError ''missing port in address'')"
  by (simp add: matches_def split_plain_def ConstructCluster_def detect_roleId_def lookup_node2_def
        Let_def)

section \<open>The promise counter\<close>

lemma skippedPeers_Cons:
  "skippedPeers ((k, p) # m) = (if requirePromise p then 0 else 1) + skippedPeers m"
  by (simp add: skippedPeers_def)

lemma skippedPeers_le: "skippedPeers m \<le> length m"
  by (simp add: skippedPeers_def)

lemma skippedPeers_update:
  "distinct (map fst m) \<Longrightarrow> map_of m k = Some p \<Longrightarrow>
   skippedPeers (AList.update k p' m) + (if requirePromise p then 0 else 1) =
     skippedPeers m + (if requirePromise p' then 0 else 1)"
proof (induction m)
  case Nil
  then show ?case by simp
next
  case (Cons e m)
  obtain k0 p0 where e: "e = (k0, p0)" by (cases e)
  show ?case
  proof (cases "k0 = k")
    case True
    with Cons.prems e have "p0 = p" by simp
    with True e show ?thesis by (simp add: skippedPeers_Cons)
  next
    case False
    with Cons.prems e have "map_of m k = Some p" and "distinct (map fst m)" by simp_all
    then have "skippedPeers (AList.update k p' m) + (if requirePromise p then 0 else 1) =
               skippedPeers m + (if requirePromise p' then 0 else 1)"
      using Cons.IH by simp
    with False e show ?thesis by (simp add: skippedPeers_Cons)
  qed
qed

lemma skippedPeers_positive:
  "map_of m k = Some p \<Longrightarrow> \<not> requirePromise p \<Longrightarrow> 0 < skippedPeers m"
proof -
  assume "map_of m k = Some p" and np: "\<not> requirePromise p"
  then have "(k, p) \<in> set m" by (simp add: map_of_SomeD)
  with np have "(k, p) \<in> set (filter (\<lambda>kp. \<not> requirePromise (snd kp)) m)" by simp
  then have "filter (\<lambda>kp. \<not> requirePromise (snd kp)) m \<noteq> []"
    by (metis empty_iff list.set(1))
  then show ?thesis by (simp add: skippedPeers_def)
qed

lemma index_nodes_present:
  "map_of m k = Some p \<Longrightarrow> index_nodes m k = p"
  by (simp add: index_nodes_def)

text \<open>One entry changes its flag: the counter follows when the key is in the registry.\<close>

lemma counter_follows:
  fixes c :: u64
  assumes d: "distinct (map fst m)" and small: "length m < 2 ^ 63"
    and m: "map_of m k = Some p" and c: "unat c = skippedPeers m"
  shows "unat (if requirePromise p \<noteq> required then (if required then c - 1 else c + 1) else c) =
           skippedPeers (AList.update k (p \<lparr> requirePromise := required \<rparr>) m)"
proof -
  have upd: "skippedPeers (AList.update k (p \<lparr> requirePromise := required \<rparr>) m)
               + (if requirePromise p then 0 else 1) =
             skippedPeers m + (if required then 0 else 1)"
    using skippedPeers_update [OF d m, of "p \<lparr> requirePromise := required \<rparr>"] by simp
  show ?thesis
  proof (cases "requirePromise p = required")
    case True
    with upd c show ?thesis by simp
  next
    case False
    show ?thesis
    proof (cases required)
      case True
      with False have np: "\<not> requirePromise p" by simp
      then have pos: "0 < skippedPeers m" using m by (intro skippedPeers_positive)
      with c have "c \<noteq> 0" by (metis less_numeral_extra(3) unat_0)
      then have "unat (c - 1) = unat c - 1" by (rule unat_minus_one)
      with upd c np True pos show ?thesis by simp
    next
      case req: False
      with False have rp: "requirePromise p" by simp
      have "skippedPeers m \<le> length m" by (rule skippedPeers_le)
      with small c have "unat c + unat (1 :: u64) < 2 ^ LENGTH(64)" by simp
      then have "unat (c + 1) = unat c + unat (1 :: u64)"
        by (simp only: unat_add_lem [THEN iffD1])
      with upd c rp req show ?thesis by simp
    qed
  qed
qed

lemma SetPromiseRequirement_consistent:
  assumes wf: "wellformed this" and k: "rid \<in> set (map fst (nodes this))"
    and c: "consistent this"
  shows "consistent (SetPromiseRequirement this rid required)
         \<and> wellformed (SetPromiseRequirement this rid required)
         \<and> map fst (nodes (SetPromiseRequirement this rid required)) = map fst (nodes this)"
proof -
  from wf have d: "distinct (map fst (nodes this))" and small: "length (nodes this) < 2 ^ 63"
    by (simp_all add: wellformed_def)
  from k obtain p where m: "map_of (nodes this) rid = Some p"
    by (metis map_of_eq_None_iff not_Some_eq set_map)
  then have ix: "index_nodes (nodes this) rid = p" by (rule index_nodes_present)
  have keys: "map fst (nodes (SetPromiseRequirement this rid required)) = map fst (nodes this)"
    using k by (simp add: SetPromiseRequirement_def Let_def keys_update_present)
  have "length (map fst (nodes (SetPromiseRequirement this rid required))) =
        length (map fst (nodes this))"
    by (simp only: keys)
  then have len: "length (nodes (SetPromiseRequirement this rid required)) = length (nodes this)"
    by simp
  have 1: "consistent (SetPromiseRequirement this rid required)"
    using counter_follows [OF d small m, of "skipPromiseCount this" required] c
    by (simp add: consistent_def SetPromiseRequirement_def Let_def ix)
  have 2: "wellformed (SetPromiseRequirement this rid required)"
    using d small by (simp add: wellformed_def keys len)
  from 1 2 keys show ?thesis by simp
qed

lemma demote_consistent:
  assumes wf: "wellformed this" and k: "rid \<in> set (map fst (nodes this))"
    and c: "consistent this"
  shows "consistent (demote this rid) \<and> wellformed (demote this rid)
         \<and> map fst (nodes (demote this rid)) = map fst (nodes this)"
proof -
  from wf have d: "distinct (map fst (nodes this))" and small: "length (nodes this) < 2 ^ 63"
    by (simp_all add: wellformed_def)
  from k obtain p where m: "map_of (nodes this) rid = Some p"
    by (metis map_of_eq_None_iff not_Some_eq set_map)
  then have ix: "index_nodes (nodes this) rid = p" by (rule index_nodes_present)
  have keys: "map fst (nodes (demote this rid)) = map fst (nodes this)"
    using k by (simp add: demote_nodes keys_update_present)
  have "length (map fst (nodes (demote this rid))) = length (map fst (nodes this))"
    by (simp only: keys)
  then have len: "length (nodes (demote this rid)) = length (nodes this)"
    by simp
  have 1: "consistent (demote this rid)"
    using counter_follows [OF d small m, of "skipPromiseCount this" True] c
    by (cases "requirePromise p") (simp_all add: consistent_def demote_nodes demote_count ix)
  have 2: "wellformed (demote this rid)"
    using d small by (simp add: wellformed_def keys len)
  from 1 2 keys show ?thesis by simp
qed

lemma heartbeat_demote_consistent:
  "wellformed this \<Longrightarrow> consistent this \<Longrightarrow> set ks \<subseteq> set (map fst (nodes this)) \<Longrightarrow>
   consistent (heartbeat_demote received ks this) \<and> wellformed (heartbeat_demote received ks this)"
proof (induction ks arbitrary: this)
  case Nil
  then show ?case by simp
next
  case (Cons k ks)
  from Cons.prems have kin: "k \<in> set (map fst (nodes this))"
    and sub: "set ks \<subseteq> set (map fst (nodes this))" by simp_all
  note dm = demote_consistent [OF Cons.prems(1) kin Cons.prems(2)]
  from dm sub have sub': "set ks \<subseteq> set (map fst (nodes (demote this k)))" by simp
  have a: "consistent (heartbeat_demote received ks (demote this k))
           \<and> wellformed (heartbeat_demote received ks (demote this k))"
    using dm sub' by (intro Cons.IH) simp_all
  have b: "consistent (heartbeat_demote received ks this)
           \<and> wellformed (heartbeat_demote received ks this)"
    using Cons.prems(1,2) sub by (intro Cons.IH)
  from a b show ?case by simp
qed

lemma BroadcastHeartbeat_consistent:
  assumes "wellformed this" and "consistent this" and "range_order (nodes this) order2"
  shows "consistent (cluster (BroadcastHeartbeat this rid order1 endpoint order2))
         \<and> wellformed (cluster (BroadcastHeartbeat this rid order1 endpoint order2))"
proof -
  have "set order2 \<subseteq> set (map fst (nodes this))"
    using assms(3) by (simp add: range_order_def)
  with assms(1,2) have "consistent (heartbeat_demote r order2 this)
      \<and> wellformed (heartbeat_demote r order2 this)" for r
    by (intro heartbeat_demote_consistent)
  with assms(1,2) show ?thesis by (simp add: cluster_eq)
qed

lemma update_entries: "set (AList.update k v m) \<subseteq> insert (k, v) (set m)"
  by (induction m) auto

lemma build_peers_require:
  "\<forall>e \<in> set peers. requirePromise (snd e) \<Longrightarrow>
   \<forall>e \<in> set (build_peers addresses ks peers). requirePromise (snd e)"
proof (induction ks arbitrary: peers)
  case Nil
  then show ?case by simp
next
  case (Cons k ks)
  let ?p = "\<lparr> roleId = k, address = (case map_of addresses k of None \<Rightarrow> [] | Some a \<Rightarrow> a),
               comm = None, requirePromise = True \<rparr>"
  have "\<forall>e \<in> set (AList.update k ?p peers). requirePromise (snd e)"
    using Cons.prems update_entries [of k ?p peers] by auto
  then have "\<forall>e \<in> set (build_peers addresses ks (AList.update k ?p peers)). requirePromise (snd e)"
    by (rule Cons.IH)
  then show ?case by (simp add: Let_def)
qed

lemma fresh_cluster_consistent: "consistent (fresh_cluster addresses order rid)"
proof -
  have "\<forall>e \<in> set (build_peers addresses order []). requirePromise (snd e)"
    by (rule build_peers_require) simp
  then have "filter (\<lambda>kp. \<not> requirePromise (snd kp)) (build_peers addresses order []) = []"
    by (simp add: filter_empty_conv)
  then show ?thesis by (simp add: consistent_def fresh_cluster_def skippedPeers_def)
qed

text \<open>
  Claim C1. \<^verbatim>\<open>skipPromiseCount\<close> equals the number of entries of the peers map whose
  \<^verbatim>\<open>requirePromise\<close> is false: after construction, and after every
  \<^verbatim>\<open>SetPromiseRequirement\<close> and every heartbeat demotion. The lemmas above show it for
  construction, for the demotions and for \<^verbatim>\<open>SetPromiseRequirement\<close> on a role
  identifier of the registry. On the cluster of three nodes just constructed,
  \<^verbatim>\<open>SetPromiseRequirement(7, true)\<close> reads the zero \<^verbatim>\<open>Peer\<close> for the unknown key 7,
  decrements the counter from 0 to \<open>2^64 - 1\<close> and adds an entry that requires a
  promise, while no entry is exempt; \<^verbatim>\<open>SetPromiseRequirement(7, false)\<close> adds an
  exempt entry and leaves the counter at 0.
\<close>

theorem SetPromiseRequirement_unknown_role_drifts:
  "consistent (fresh_cluster table3 [3, 1, 2] 1)
   \<and> 7 \<notin> set (map fst (nodes (fresh_cluster table3 [3, 1, 2] 1)))
   \<and> unat (skipPromiseCount (SetPromiseRequirement (fresh_cluster table3 [3, 1, 2] 1) 7 True)) =
        18446744073709551615
   \<and> skippedPeers (nodes (SetPromiseRequirement (fresh_cluster table3 [3, 1, 2] 1) 7 True)) = 0
   \<and> \<not> consistent (SetPromiseRequirement (fresh_cluster table3 [3, 1, 2] 1) 7 True)
   \<and> skipPromiseCount (SetPromiseRequirement (fresh_cluster table3 [3, 1, 2] 1) 7 False) = 0
   \<and> skippedPeers (nodes (SetPromiseRequirement (fresh_cluster table3 [3, 1, 2] 1) 7 False)) = 1
   \<and> \<not> consistent (SetPromiseRequirement (fresh_cluster table3 [3, 1, 2] 1) 7 False)
   \<and> map fst (nodes (SetPromiseRequirement (fresh_cluster table3 [3, 1, 2] 1) 7 False)) =
        [3, 1, 2, 7]"
  by (simp add: consistent_def skippedPeers_def SetPromiseRequirement_def fresh_cluster_def
        table3_def index_nodes_def zeroPeer_def Let_def unsigned_minus_1_eq_mask
        mask_eq_exp_minus_1)

section \<open>Direct notification\<close>

lemma NotifyOfSuccess_panics_iff:
  "NotifyOfSuccess this rid = Inl NilPointerDereference \<longleftrightarrow>
     comm (index_nodes (nodes this) rid) = None"
  by (simp add: NotifyOfSuccess_def split: option.splits)

text \<open>
  Claim C6. \<^verbatim>\<open>NotifyOfSuccess\<close> for a peer without a connection handle should fail in
  a way that can be told from a success, and should not crash. The code calls
  \<^verbatim>\<open>Go\<close> through the nil handle: for node 2 of the three nodes, which has no
  connection, and for any node of a cluster just constructed, the result is the
  nil-pointer panic; for the connected node 1 the call is started.
\<close>

theorem NotifyOfSuccess_without_connection_panics:
  "comm (index_nodes (nodes trio) 2) = None
   \<and> NotifyOfSuccess trio 2 = Inl NilPointerDereference
   \<and> NotifyOfSuccess trio 1 = Inr (Go 1 11 ''AcceptorRole.Success'')
   \<and> NotifyOfSuccess (fresh_cluster table3 [3, 1, 2] 1) 3 = Inl NilPointerDereference"
  by (simp add: NotifyOfSuccess_def trio_def fresh_cluster_def table3_def index_nodes_def Let_def)

section \<open>The lock discipline\<close>

lemma NotifyOfSuccess_unguarded: "\<not> guarded False (NotifyOfSuccess_steps this rid)"
  by (simp add: NotifyOfSuccess_steps_def)

lemma guarded_prepare_send: "guarded True (prepare_send_steps m ks @ rest) = guarded True rest"
  by (induction ks) simp_all

lemma unblocked_prepare_send: "unblocked h (prepare_send_steps m ks @ rest) = unblocked h rest"
  by (induction ks) simp_all

lemma BroadcastPrepareRequest_disciplined:
  "guarded False (BroadcastPrepareRequest_steps this order)
   \<and> unblocked False (BroadcastPrepareRequest_steps this order)"
  by (simp add: BroadcastPrepareRequest_steps_def guarded_prepare_send unblocked_prepare_send)

lemma accessors_disciplined:
  "guarded False GetPeerCount_steps \<and> unblocked False GetPeerCount_steps
   \<and> guarded False GetSkipPromiseCount_steps \<and> unblocked False GetSkipPromiseCount_steps"
  by (simp add: GetPeerCount_steps_def GetSkipPromiseCount_steps_def)

lemma SetPromiseRequirement_disciplined:
  "guarded False (SetPromiseRequirement_steps this rid required)
   \<and> unblocked False (SetPromiseRequirement_steps this rid required)"
  by (simp add: SetPromiseRequirement_steps_def)

lemma unblocked_heartbeat_send:
  "unblocked h (heartbeat_send_steps m ks @ rest) = unblocked h rest"
  by (induction ks) (simp_all split: option.splits)

lemma guarded_heartbeat_send:
  "guarded True (heartbeat_send_steps m ks @ rest) = guarded True rest"
  by (induction ks) (simp_all split: option.splits)

lemma heartbeat_collect_steps_first:
  "replyCount < peerCount \<Longrightarrow>
   \<exists>rest. heartbeat_collect_steps peerCount endpoint replyCount = TimedWait # rest"
  by (subst heartbeat_collect_steps.simps) simp

lemma BroadcastHeartbeat_waits_locked:
  assumes "nodes this \<noteq> []"
  shows "\<not> unblocked False (BroadcastHeartbeat_steps this rid order1 endpoint order2)"
proof -
  from assms have "0 < length (nodes this)" by simp
  then obtain rest where
    "heartbeat_collect_steps (length (nodes this)) endpoint 0 = TimedWait # rest"
    using heartbeat_collect_steps_first by blast
  then show ?thesis
    by (simp add: BroadcastHeartbeat_steps_def unblocked_heartbeat_send)
qed

lemma trio_heartbeat_steps:
  "BroadcastHeartbeat_steps trio 1 [3, 1, 2] pulse_replies [2, 3, 1] =
     [Lock, ReadNodes,
      ReadNodes, StartCall, ReadNodes, StartCall, ReadNodes,
      TimedWait, TimedWait,
      ReadNodes, ReadNodes, WriteNodes, Send,
      ReadNodes, ReadNodes, ReadCount, WriteCount, WriteNodes, Send,
      ReadNodes,
      Unlock]"
proof -
  have w: "heartbeat_collect_steps (length (nodes trio)) pulse_replies 0 = [TimedWait, TimedWait]"
    by (simp add: heartbeat_collect_steps.simps trio_def pulse_replies_def Second_def)
  have s: "heartbeat_send_steps (nodes trio) [3, 1, 2] =
             [ReadNodes, StartCall, ReadNodes, StartCall, ReadNodes]"
    by (simp add: trio_def index_nodes_def)
  have d: "heartbeat_demote_steps [1] [2, 3, 1] trio =
             [ReadNodes, ReadNodes, WriteNodes, Send,
              ReadNodes, ReadNodes, ReadCount, WriteCount, WriteNodes, Send,
              ReadNodes]"
    by (simp add: trio_def index_nodes_def demote_def Let_def)
  have f: "failed (BroadcastHeartbeat trio 1 [3, 1, 2] pulse_replies [2, 3, 1])"
    and r: "replied (BroadcastHeartbeat trio 1 [3, 1, 2] pulse_replies [2, 3, 1]) = [1]"
    by (simp_all add: trio_round)
  show ?thesis
    by (simp only: BroadcastHeartbeat_steps_def Let_def f r w s d if_True append.simps)
qed

text \<open>
  Claim C5. Every read and write of the peers map and of \<^verbatim>\<open>skipPromiseCount\<close> should
  happen with the lock held, and no operation should hold the lock across a timed wait.
  \<^verbatim>\<open>SetPromiseRequirement\<close> and \<^verbatim>\<open>BroadcastPrepareRequest\<close> do both (lemmas above).
  \<^verbatim>\<open>NotifyOfSuccess\<close> indexes \<^verbatim>\<open>this.nodes\<close> without ever taking the lock, and
  \<^verbatim>\<open>BroadcastHeartbeat\<close>, whose accesses are all under the lock, keeps it through every
  \<^verbatim>\<open>select\<close> of its collecting loop, each a wait of up to 500 ms: here on the three
  nodes, with one answer at once and the next one late.
\<close>

theorem lock_discipline_broken:
  "NotifyOfSuccess_steps trio 1 = [ReadNodes, StartCall, Spawn]
   \<and> \<not> guarded False (NotifyOfSuccess_steps trio 1)
   \<and> BroadcastHeartbeat_steps trio 1 [3, 1, 2] pulse_replies [2, 3, 1] =
       [Lock, ReadNodes,
        ReadNodes, StartCall, ReadNodes, StartCall, ReadNodes,
        TimedWait, TimedWait,
        ReadNodes, ReadNodes, WriteNodes, Send,
        ReadNodes, ReadNodes, ReadCount, WriteCount, WriteNodes, Send,
        ReadNodes,
        Unlock]
   \<and> guarded False (BroadcastHeartbeat_steps trio 1 [3, 1, 2] pulse_replies [2, 3, 1])
   \<and> \<not> unblocked False (BroadcastHeartbeat_steps trio 1 [3, 1, 2] pulse_replies [2, 3, 1])"
proof -
  have n: "NotifyOfSuccess_steps trio 1 = [ReadNodes, StartCall, Spawn]"
    by (simp add: NotifyOfSuccess_steps_def NotifyOfSuccess_def trio_def index_nodes_def)
  have g: "\<not> guarded False (NotifyOfSuccess_steps trio 1)"
    by (simp add: n)
  note h = trio_heartbeat_steps
  have hg: "guarded False (BroadcastHeartbeat_steps trio 1 [3, 1, 2] pulse_replies [2, 3, 1])"
    by (simp add: h)
  have hu: "\<not> unblocked False (BroadcastHeartbeat_steps trio 1 [3, 1, 2] pulse_replies [2, 3, 1])"
    by (simp add: h)
  from n g h hg hu show ?thesis by (intro conjI)
qed

end
